theory Spec2Isabelle
  imports Main "HOL-Library.Word" "HOL-Library.AList"
begin

unbundle bit_operations_syntax

section \<open>Wire format\<close>

text \<open>
  Both programs move raw bytes (\<open>std::vector<char>\<close>) and unsigned 32-bit header
  fields (\<open>uint32_t\<close>). A header field travels big-endian: the sender stores
  \<open>htonl x\<close> with \<open>memcpy\<close>, the receiver reads four bytes with \<open>memcpy\<close> and
  applies \<open>ntohl\<close>.
\<close>

type_synonym byte = "8 word"
type_synonym u32 = "32 word"

definition PAYLOAD_SIZE :: nat where
  "PAYLOAD_SIZE = 1200"

definition HDR_LEN :: nat where
  "HDR_LEN = 12"

definition FLAG_FINAL :: u32 where
  "FLAG_FINAL = 1"

definition MAX_PKT :: nat where
  "MAX_PKT = HDR_LEN + PAYLOAD_SIZE"

text \<open>\<open>memcpy(&x_be, p, 4); x = ntohl(x_be)\<close>: the four bytes at \<open>p\<close>, most significant first.\<close>

fun ntohl_at :: "byte list \<Rightarrow> u32" where
  "ntohl_at (a # b # c # d # _) =
     push_bit 24 (ucast a) OR push_bit 16 (ucast b) OR push_bit 8 (ucast c) OR ucast d"
| "ntohl_at _ = 0"

text \<open>\<open>x_be = htonl(x); memcpy(p, &x_be, 4)\<close>: the four bytes written at \<open>p\<close>.\<close>

definition htonl_bytes :: "u32 \<Rightarrow> byte list" where
  "htonl_bytes x = [ucast (drop_bit 24 x), ucast (drop_bit 16 x), ucast (drop_bit 8 x), ucast x]"

text \<open>
  The datagram the stream-id sender puts on the wire: the three header words at offsets
  0, 4 and 8 of \<open>buf\<close>, then the \<open>n\<close> payload bytes read to \<open>buf + HDR_LEN\<close>.
\<close>

definition wire :: "u32 \<Rightarrow> u32 \<Rightarrow> u32 \<Rightarrow> byte list \<Rightarrow> byte list" where
  "wire stream_id seq flags chunk =
     htonl_bytes stream_id @ htonl_bytes seq @ htonl_bytes flags @ chunk"

section \<open>The receiver with stream ids (src/receiver.cpp)\<close>

subsection \<open>Output files\<close>

text \<open>
  A \<open>std::ofstream\<close> is modelled by whether it is open, whether an error bit is set, and
  the bytes written through it since it was constructed. Whether the operating system
  grants an \<open>open\<close> is an input of the model. A write to an open stream in good state is
  taken to succeed.
\<close>

record ofstream =
  is_open :: bool
  failed :: bool
  written :: "byte list"

definition closed_ofstream :: ofstream where
  "closed_ofstream = \<lparr>is_open = False, failed = False, written = []\<rparr>"

definition ofstream_open :: "bool \<Rightarrow> ofstream \<Rightarrow> ofstream" where
  "ofstream_open granted f =
     (if is_open f \<or> \<not> granted then f\<lparr>failed := True\<rparr>
      else f\<lparr>is_open := True, failed := False\<rparr>)"

definition ofstream_write :: "byte list \<Rightarrow> ofstream \<Rightarrow> ofstream" where
  "ofstream_write bs f =
     (if failed f then f
      else if is_open f then f\<lparr>written := written f @ bs\<rparr>
      else if bs = [] then f
      else f\<lparr>failed := True\<rparr>)"

definition ofstream_close :: "ofstream \<Rightarrow> ofstream" where
  "ofstream_close f = (if is_open f then f\<lparr>is_open := False\<rparr> else f\<lparr>failed := True\<rparr>)"

subsection \<open>State\<close>

record StreamState =
  expected :: u32
  buffer :: "u32 \<rightharpoonup> byte list"
  final_seen :: bool
  final_seq :: u32
  final_at :: int
  fout :: ofstream
  has_file :: bool

definition new_stream :: StreamState where
  "new_stream = \<lparr>expected = 1, buffer = Map.empty, final_seen = False, final_seq = 0,
     final_at = 0, fout = closed_ofstream, has_file = False\<rparr>"

text \<open>
  The command line after parsing: \<open>subscribe_all\<close> is \<open>subscribe == "all"\<close>, \<open>subs\<close> lists
  the elements of the \<open>std::set\<close> in ascending order, \<open>timeout\<close> is in seconds.
\<close>

record config =
  subscribe_all :: bool
  subs :: "u32 list"
  out_pattern :: string
  timeout :: int

definition single_to_stdout :: "config \<Rightarrow> bool" where
  "single_to_stdout cfg =
     (\<not> subscribe_all cfg \<and> card (set (subs cfg)) = 1 \<and> out_pattern cfg = ''-'')"

text \<open>What the program prints on \<open>std::cerr\<close> inside and after the receive loop.\<close>

datatype log_msg =
    TimeoutWaiting u32
  | CannotOpen u32
  | Opened u32
  | StreamingToStdout u32
  | FinalMarkerSeen u32 u32
  | StreamFinished u32 u32 u32
  | RecvFailed

text \<open>
  The \<open>std::map\<close> of streams is a list of pairs in ascending key order; \<open>cout\<close> holds the
  bytes written to standard output.
\<close>

record receiver =
  streams :: "(u32 \<times> StreamState) list"
  cout :: "byte list"
  cerr :: "log_msg list"

definition receiver_init :: receiver where
  "receiver_init = \<lparr>streams = [], cout = [], cerr = []\<rparr>"

text \<open>
  One return of \<open>recv\<close>: a datagram (with the steady clock's reading in nanoseconds and
  whether an \<open>open\<close> of the output file would be granted at that moment), a receive
  timeout (\<open>EWOULDBLOCK\<close>, \<open>EAGAIN\<close> or \<open>EINTR\<close>, with the clock's reading), or any other
  error.
\<close>

datatype event =
    Datagram "byte list" int bool
  | RecvTimeout int
  | RecvError

subsection \<open>The timeout branch\<close>

text \<open>\<open>duration_cast<seconds>\<close> of a nanosecond count truncates towards zero.\<close>

definition elapsed_seconds :: "int \<Rightarrow> int \<Rightarrow> int" where
  "elapsed_seconds now t =
     (if t \<le> now then (now - t) div 1000000000 else - ((t - now) div 1000000000))"

fun check_timeouts ::
  "int \<Rightarrow> int \<Rightarrow> (u32 \<times> StreamState) list \<Rightarrow> (u32 \<times> StreamState) list \<times> log_msg list" where
  "check_timeouts tmo now [] = ([], [])"
| "check_timeouts tmo now ((sid, st) # rest) =
     (let (rest', msgs) = check_timeouts tmo now rest in
      if final_seen st \<and> elapsed_seconds now (final_at st) > tmo
      then ((sid, st\<lparr>final_seen := False\<rparr>) # rest', TimeoutWaiting sid # msgs)
      else ((sid, st) # rest', msgs))"

text \<open>The loop over \<open>subs\<close> that computes \<open>all_done\<close>, with its two early exits.\<close>

fun all_done :: "(u32 \<times> StreamState) list \<Rightarrow> u32 list \<Rightarrow> bool" where
  "all_done strs [] = True"
| "all_done strs (sid # rest) =
     (case map_of strs sid of
        None \<Rightarrow> False
      | Some st \<Rightarrow>
          if \<not> (final_seen st \<and> expected st > final_seq st) then False
          else all_done strs rest)"

subsection \<open>The datagram branch\<close>

text \<open>\<open>streams[sid]\<close>: a missing key is inserted, at its place in key order, with a fresh state.\<close>

fun insert_stream :: "u32 \<Rightarrow> StreamState \<Rightarrow> (u32 \<times> StreamState) list \<Rightarrow> (u32 \<times> StreamState) list" where
  "insert_stream sid st [] = [(sid, st)]"
| "insert_stream sid st ((k, v) # rest) =
     (if sid < k then (sid, st) # (k, v) # rest else (k, v) # insert_stream sid st rest)"

definition ensure_stream :: "u32 \<Rightarrow> (u32 \<times> StreamState) list \<Rightarrow> (u32 \<times> StreamState) list" where
  "ensure_stream sid strs =
     (case map_of strs sid of None \<Rightarrow> insert_stream sid new_stream strs | Some _ \<Rightarrow> strs)"

definition stream_at :: "u32 \<Rightarrow> (u32 \<times> StreamState) list \<Rightarrow> StreamState" where
  "stream_at sid strs = (case map_of strs sid of None \<Rightarrow> new_stream | Some st \<Rightarrow> st)"

text \<open>
  ``open file if not yet'': the attempt is made for every datagram of a stream that has
  no file. The file name (the pattern with \<open>{id}\<close> replaced) only selects the file; each
  stream's sink is modelled by the bytes written through its own \<open>fout\<close>.
\<close>

definition open_sink :: "config \<Rightarrow> u32 \<Rightarrow> bool \<Rightarrow> StreamState \<Rightarrow> StreamState \<times> log_msg list" where
  "open_sink cfg sid granted st =
     (if \<not> has_file st then
        (if \<not> single_to_stdout cfg then
           (let f = ofstream_open granted (fout st) in
            if failed f then (st\<lparr>fout := f\<rparr>, [CannotOpen sid])
            else (st\<lparr>fout := f, has_file := True\<rparr>, [Opened sid]))
         else (st\<lparr>has_file := False\<rparr>, [StreamingToStdout sid]))
      else (st, []))"

text \<open>
  Writing one payload: to standard output when \<open>to_stdout\<close> holds (that is
  \<open>single_to_stdout && streams.size() == 1 && st.has_file == false\<close>), else to the file if
  the stream has one. An empty payload is skipped.
\<close>

definition emit :: "bool \<Rightarrow> byte list \<Rightarrow> byte list \<times> StreamState \<Rightarrow> byte list \<times> StreamState" where
  "emit to_stdout payload os =
     (case os of (out, st) \<Rightarrow>
        if payload \<noteq> [] then
          (if to_stdout then (out @ payload, st)
           else if has_file st then (out, st\<lparr>fout := ofstream_write payload (fout st)\<rparr>)
           else (out, st))
        else (out, st))"

text \<open>``flush buffered'': the inner \<open>while (true)\<close> loop.\<close>

function flush_buffered :: "bool \<Rightarrow> byte list \<Rightarrow> StreamState \<Rightarrow> byte list \<times> StreamState" where
  "flush_buffered to_stdout out st =
     (case buffer st (expected st) of
        None \<Rightarrow> (out, st)
      | Some p \<Rightarrow>
          flush_buffered to_stdout (fst (emit to_stdout p (out, st)))
            ((snd (emit to_stdout p (out, st)))
               \<lparr>buffer := (buffer st)(expected st := None), expected := expected st + 1\<rparr>))"
  by pat_completeness auto
termination
proof (relation "measure (\<lambda>(b, out, st). card (dom (buffer st)))")
  show "wf (measure (\<lambda>(b, out, st). card (dom (buffer st))))" by simp
next
  fix to_stdout :: bool and out :: "byte list" and st :: StreamState and p
  assume "buffer st (expected st) = Some p"
  then have "expected st \<in> dom (buffer st)" by auto
  then have "card (dom (buffer st) - {expected st}) < card (dom (buffer st))"
    by (intro card_Diff1_less) simp_all
  then show "((to_stdout, fst (emit to_stdout p (out, st)),
       (snd (emit to_stdout p (out, st)))
         \<lparr>buffer := (buffer st)(expected st := None), expected := expected st + 1\<rparr>),
      (to_stdout, out, st)) \<in> measure (\<lambda>(b, out, st). card (dom (buffer st)))"
    by simp
qed

text \<open>The three-way comparison of \<open>seq\<close> with \<open>expected\<close>; \<open>None\<close> is the \<open>continue\<close> of a stale frame.\<close>

definition reorder ::
  "bool \<Rightarrow> u32 \<Rightarrow> byte list \<Rightarrow> byte list \<Rightarrow> StreamState \<Rightarrow> (byte list \<times> StreamState) option" where
  "reorder to_stdout seq payload out st =
     (if seq < expected st then None
      else if seq = expected st then
        (case emit to_stdout payload (out, st) of (out1, st1) \<Rightarrow>
           Some (flush_buffered to_stdout out1 (st1\<lparr>expected := expected st1 + 1\<rparr>)))
      else
        Some (out, if buffer st seq = None then st\<lparr>buffer := (buffer st)(seq \<mapsto> payload)\<rparr> else st))"

definition mark_final :: "u32 \<Rightarrow> u32 \<Rightarrow> u32 \<Rightarrow> int \<Rightarrow> StreamState \<Rightarrow> StreamState \<times> log_msg list" where
  "mark_final sid seq flags now st =
     (if flags AND FLAG_FINAL \<noteq> 0
      then (st\<lparr>final_seen := True, final_seq := seq, final_at := now\<rparr>, [FinalMarkerSeen sid seq])
      else (st, []))"

definition finished :: "StreamState \<Rightarrow> bool" where
  "finished st = (final_seen st \<and> expected st > final_seq st)"

definition close_file :: "StreamState \<Rightarrow> StreamState" where
  "close_file st =
     (if has_file st \<and> is_open (fout st) then st\<lparr>fout := ofstream_close (fout st)\<rparr> else st)"

text \<open>
  The header of one datagram. \<open>recv\<close> stores at most \<open>rxbuf.size() = MAX_PKT\<close> bytes of
  it and returns their number \<open>n\<close>; what a longer datagram has beyond that is discarded by
  the socket. \<open>None\<close> is the \<open>continue\<close> of \<open>n < HDR_LEN\<close>; otherwise the result is
  \<open>sid\<close>, \<open>seq\<close>, \<open>flags\<close> and the \<open>payload\<close> vector.
\<close>

definition decode :: "byte list \<Rightarrow> (u32 \<times> u32 \<times> u32 \<times> byte list) option" where
  "decode dgram =
     (let rxbuf = take MAX_PKT dgram; n = length rxbuf in
      if n < HDR_LEN then None
      else Some (ntohl_at rxbuf, ntohl_at (drop 4 rxbuf), ntohl_at (drop 8 rxbuf),
                 if n > HDR_LEN then drop HDR_LEN rxbuf else []))"

text \<open>
  The rest of the loop body for a decoded datagram: subscription filter, stream lookup,
  sink, reordering, final marker and completion check. The result's first component
  tells whether the loop is left by \<open>break\<close>.
\<close>

definition deliver ::
  "config \<Rightarrow> u32 \<Rightarrow> u32 \<Rightarrow> u32 \<Rightarrow> byte list \<Rightarrow> int \<Rightarrow> bool \<Rightarrow> receiver \<Rightarrow> bool \<times> receiver" where
  "deliver cfg sid seq flags payload now granted s =
     (if \<not> subscribe_all cfg \<and> sid \<notin> set (subs cfg) then (False, s)
      else
        let strs = ensure_stream sid (streams s);
            (st1, msgs1) = open_sink cfg sid granted (stream_at sid strs);
            to_stdout = (single_to_stdout cfg \<and> length strs = 1 \<and> has_file st1 = False)
        in
        case reorder to_stdout seq payload (cout s) st1 of
          None \<Rightarrow>
            (False, s\<lparr>streams := AList.update sid st1 strs, cerr := cerr s @ msgs1\<rparr>)
        | Some (out2, st2) \<Rightarrow>
            let (st3, msgs3) = mark_final sid seq flags now st2 in
            if finished st3 then
              (let st4 = close_file st3;
                   strs4 = AList.update sid st4 strs;
                   s4 = s\<lparr>streams := strs4, cout := out2,
                          cerr := cerr s @ msgs1 @ msgs3
                            @ [StreamFinished sid (expected st3) (final_seq st3)]\<rparr>
               in (if \<not> subscribe_all cfg then all_done strs4 (subs cfg) else False, s4))
            else
              (False, s\<lparr>streams := AList.update sid st3 strs, cout := out2,
                        cerr := cerr s @ msgs1 @ msgs3\<rparr>))"

definition on_datagram :: "config \<Rightarrow> byte list \<Rightarrow> int \<Rightarrow> bool \<Rightarrow> receiver \<Rightarrow> bool \<times> receiver" where
  "on_datagram cfg dgram now granted s =
     (case decode dgram of
        None \<Rightarrow> (False, s)
      | Some (sid, seq, flags, payload) \<Rightarrow> deliver cfg sid seq flags payload now granted s)"

subsection \<open>The receive loop and what follows it\<close>

definition step :: "config \<Rightarrow> event \<Rightarrow> receiver \<Rightarrow> bool \<times> receiver" where
  "step cfg ev s =
     (case ev of
        RecvError \<Rightarrow> (True, s\<lparr>cerr := cerr s @ [RecvFailed]\<rparr>)
      | RecvTimeout now \<Rightarrow>
          (case check_timeouts (timeout cfg) now (streams s) of (strs, msgs) \<Rightarrow>
             (if subscribe_all cfg then False else all_done strs (subs cfg),
              s\<lparr>streams := strs, cerr := cerr s @ msgs\<rparr>))
      | Datagram dgram now granted \<Rightarrow> on_datagram cfg dgram now granted s)"

text \<open>
  The loop over the returns of \<open>recv\<close> given so far. The first component of the result is
  \<open>True\<close> when the loop has been left; \<open>False\<close> means the program is still blocked in
  \<open>recv\<close> after the last event.
\<close>

fun run_loop :: "config \<Rightarrow> event list \<Rightarrow> receiver \<Rightarrow> bool \<times> receiver" where
  "run_loop cfg [] s = (False, s)"
| "run_loop cfg (ev # evs) s =
     (case step cfg ev s of (brk, s') \<Rightarrow> if brk then (True, s') else run_loop cfg evs s')"

text \<open>``flush remaining buffered in-order'': the loop after the receive loop, per stream.\<close>

function final_flush :: "StreamState \<Rightarrow> StreamState" where
  "final_flush st =
     (case buffer st (expected st) of
        None \<Rightarrow> st
      | Some p \<Rightarrow>
          final_flush
            ((if has_file st then st\<lparr>fout := ofstream_write p (fout st)\<rparr> else st)
               \<lparr>buffer := (buffer st)(expected st := None), expected := expected st + 1\<rparr>))"
  by pat_completeness auto
termination
proof (relation "measure (\<lambda>st. card (dom (buffer st)))")
  show "wf (measure (\<lambda>st. card (dom (buffer st))))" by simp
next
  fix st :: StreamState and p
  assume "buffer st (expected st) = Some p"
  then have "expected st \<in> dom (buffer st)" by auto
  then have "card (dom (buffer st) - {expected st}) < card (dom (buffer st))"
    by (intro card_Diff1_less) simp_all
  then show "((if has_file st then st\<lparr>fout := ofstream_write p (fout st)\<rparr> else st)
         \<lparr>buffer := (buffer st)(expected st := None), expected := expected st + 1\<rparr>, st)
      \<in> measure (\<lambda>st. card (dom (buffer st)))"
    by simp
qed

definition post_loop_flush :: "receiver \<Rightarrow> receiver" where
  "post_loop_flush s =
     s\<lparr>streams := map (\<lambda>(sid, st). (sid, close_file (final_flush st))) (streams s)\<rparr>"

text \<open>
  The whole program on a finite sequence of returns of \<open>recv\<close>: \<open>None\<close> when the loop has
  not been left by the end of the sequence (the process is still receiving), the state at
  \<open>return 0\<close> otherwise.
\<close>

definition receiver_main :: "config \<Rightarrow> event list \<Rightarrow> receiver option" where
  "receiver_main cfg evs =
     (case run_loop cfg evs receiver_init of
        (True, s) \<Rightarrow> Some (post_loop_flush s)
      | (False, s) \<Rightarrow> None)"

section \<open>The sender with stream ids (12-byte header)\<close>

text \<open>
  The input file as the \<open>std::ifstream\<close> sees it: the bytes not yet read and the two state
  bits the program depends on. \<open>read\<close> on a stream that is not good extracts nothing;
  a \<open>read\<close> that meets the end of the file before \<open>n\<close> bytes sets \<open>eofbit\<close> and
  \<open>failbit\<close>. The first component of the result is what \<open>gcount()\<close> bytes were stored.
\<close>

record ifstream =
  remaining :: "byte list"
  eofbit :: bool
  failbit :: bool

definition ifstream_of :: "byte list \<Rightarrow> ifstream" where
  "ifstream_of bytes = \<lparr>remaining = bytes, eofbit = False, failbit = False\<rparr>"

definition ifstream_read :: "nat \<Rightarrow> ifstream \<Rightarrow> byte list \<times> ifstream" where
  "ifstream_read n f =
     (if eofbit f \<or> failbit f then ([], f\<lparr>failbit := True\<rparr>)
      else if length (remaining f) < n
        then (remaining f, f\<lparr>remaining := [], eofbit := True, failbit := True\<rparr>)
        else (take n (remaining f), f\<lparr>remaining := drop n (remaining f)\<rparr>))"

text \<open>
  What the sender does that a receiver or a clock can observe: a datagram handed to
  \<open>sendto\<close>, or a sleep of a fixed number of milliseconds. The pacing sleep inside the
  loop depends on the steady clock and on floating point; it delays a \<open>sendto\<close> and is
  not recorded.
\<close>

datatype action = SendTo "byte list" | SleepMs nat

text \<open>
  The environment of one run: \<open>interrupted k\<close> is the value of \<open>g_interrupted\<close> at the
  \<open>k\<close>-th time the program reads it (once at the head of every iteration, once after the
  loop), \<open>sendto_fails i\<close> tells whether the \<open>sendto\<close> of iteration \<open>i\<close> returns a
  negative value.
\<close>

record sender_env =
  interrupted :: "nat \<Rightarrow> bool"
  sendto_fails :: "nat \<Rightarrow> bool"

text \<open>
  The main loop from iteration \<open>i\<close>. The result is the number of reads of
  \<open>g_interrupted\<close> made so far, the value of \<open>seq\<close> when the loop is left, and the actions.
\<close>

function send_loop ::
  "sender_env \<Rightarrow> u32 \<Rightarrow> nat \<Rightarrow> ifstream \<Rightarrow> u32 \<Rightarrow> action list \<Rightarrow> nat \<times> u32 \<times> action list" where
  "send_loop env stream_id i infile seq acts =
     (if interrupted env i then (Suc i, seq, acts)
      else
        case ifstream_read PAYLOAD_SIZE infile of (chunk, infile') \<Rightarrow>
          if length chunk \<le> 0 then (Suc i, seq, acts)
          else
            let is_final = (length chunk < PAYLOAD_SIZE \<or> eofbit infile');
                pkt = wire stream_id seq (if is_final then FLAG_FINAL else 0) chunk
            in
            if sendto_fails env i then (Suc i, seq, acts)
            else if is_final then (Suc i, seq + 1, acts @ [SendTo pkt])
            else send_loop env stream_id (Suc i) infile' (seq + 1) (acts @ [SendTo pkt]))"
  by pat_completeness auto
termination
  by (relation "measure (\<lambda>(env, sid, i, infile, seq, acts). length (remaining infile))")
    (auto simp: ifstream_read_def PAYLOAD_SIZE_def split: if_splits)

text \<open>``send final marker a few times'': \<open>k\<close> iterations of the last loop of \<open>main\<close>.\<close>

fun final_markers :: "u32 \<Rightarrow> u32 \<Rightarrow> nat \<Rightarrow> action list" where
  "final_markers stream_id seq 0 = []"
| "final_markers stream_id seq (Suc k) =
     SendTo (wire stream_id seq FLAG_FINAL []) # SleepMs 200 # final_markers stream_id seq k"

text \<open>\<open>main\<close> from the first loop on, for a file that could be opened.\<close>

definition sender_main :: "sender_env \<Rightarrow> u32 \<Rightarrow> byte list \<Rightarrow> action list" where
  "sender_main env stream_id file =
     (case send_loop env stream_id 0 (ifstream_of file) 1 [] of (reads, seq, acts) \<Rightarrow>
        (if interrupted env reads
         then acts @ [SendTo (wire stream_id seq FLAG_FINAL [])]
         else acts)
        @ final_markers stream_id seq 3)"

text \<open>The datagrams among the actions, in the order sent.\<close>

fun datagrams :: "action list \<Rightarrow> byte list list" where
  "datagrams [] = []"
| "datagrams (SendTo d # rest) = d # datagrams rest"
| "datagrams (SleepMs _ # rest) = datagrams rest"

section \<open>The programs without stream ids (8-byte header)\<close>

text \<open>
  The repository also holds the pair of programs the multi-stream ones grew out of: one
  stream per group, a header of two words (sequence, flags). They are modelled with the
  same notions; their names carry the suffix \<open>_v1\<close>.
\<close>

definition HDR_LEN_v1 :: nat where
  "HDR_LEN_v1 = 8"

definition MAX_PKT_v1 :: nat where
  "MAX_PKT_v1 = HDR_LEN_v1 + PAYLOAD_SIZE"

text \<open>
  The datagram of the sender: sequence and flags at offsets 0 and 4, then the payload.
\<close>

definition wire_v1 :: "u32 \<Rightarrow> u32 \<Rightarrow> byte list \<Rightarrow> byte list" where
  "wire_v1 seq flags chunk = htonl_bytes seq @ htonl_bytes flags @ chunk"

subsection \<open>The receiver\<close>

text \<open>
  What this receiver prints on \<open>std::cerr\<close> in its loop. The timeout message carries
  \<open>expected\<close>, \<open>final_seq\<close> and \<open>buffer.size()\<close>.
\<close>

datatype log_msg_v1 =
    TimeoutMissing u32 u32 nat
  | FinalSeen u32
  | Finishing
  | RecvFailed_v1

text \<open>
  The local variables of \<open>main\<close>. \<open>to_file_v1\<close> tells whether \<open>outptr\<close> points to \<open>fout\<close>
  rather than to \<open>std::cout\<close>.
\<close>

record receiver_v1 =
  expected_v1 :: u32
  buffer_v1 :: "u32 \<rightharpoonup> byte list"
  final_seen_v1 :: bool
  final_seq_v1 :: u32
  final_at_v1 :: int
  to_file_v1 :: bool
  fout_v1 :: ofstream
  cout_v1 :: "byte list"
  cerr_v1 :: "log_msg_v1 list"

text \<open>
  The state at the head of the loop. The output file is opened before the loop; \<open>None\<close>
  is the \<open>return 4\<close> of a file that cannot be created.
\<close>

definition receiver_init_v1 :: "string \<Rightarrow> bool \<Rightarrow> receiver_v1 option" where
  "receiver_init_v1 outfile granted =
     (let s = \<lparr>expected_v1 = 1, buffer_v1 = Map.empty, final_seen_v1 = False, final_seq_v1 = 0,
               final_at_v1 = 0, to_file_v1 = False, fout_v1 = closed_ofstream, cout_v1 = [],
               cerr_v1 = []\<rparr>
      in if outfile \<noteq> ''-'' then
           (let f = ofstream_open granted closed_ofstream in
            if failed f then None else Some (s\<lparr>to_file_v1 := True, fout_v1 := f\<rparr>))
         else Some s)"

definition outptr_write :: "byte list \<Rightarrow> receiver_v1 \<Rightarrow> receiver_v1" where
  "outptr_write payload s =
     (if to_file_v1 s then s\<lparr>fout_v1 := ofstream_write payload (fout_v1 s)\<rparr>
      else s\<lparr>cout_v1 := cout_v1 s @ payload\<rparr>)"

text \<open>
  ``flush contiguous buffered packets'', inside the loop and once more after it.
\<close>

function flush_v1 :: "receiver_v1 \<Rightarrow> receiver_v1" where
  "flush_v1 s =
     (case buffer_v1 s (expected_v1 s) of
        None \<Rightarrow> s
      | Some p \<Rightarrow>
          flush_v1
            ((if p \<noteq> [] then outptr_write p s else s)
               \<lparr>buffer_v1 := (buffer_v1 s)(expected_v1 s := None),
                expected_v1 := expected_v1 s + 1\<rparr>))"
  by pat_completeness auto
termination
proof (relation "measure (\<lambda>s. card (dom (buffer_v1 s)))")
  show "wf (measure (\<lambda>s. card (dom (buffer_v1 s))))" by simp
next
  fix s :: receiver_v1 and p
  assume "buffer_v1 s (expected_v1 s) = Some p"
  then have "expected_v1 s \<in> dom (buffer_v1 s)" by auto
  then have "card (dom (buffer_v1 s) - {expected_v1 s}) < card (dom (buffer_v1 s))"
    by (intro card_Diff1_less) simp_all
  then show "((if p \<noteq> [] then outptr_write p s else s)
         \<lparr>buffer_v1 := (buffer_v1 s)(expected_v1 s := None), expected_v1 := expected_v1 s + 1\<rparr>, s)
      \<in> measure (\<lambda>s. card (dom (buffer_v1 s)))"
    by (simp add: outptr_write_def)
qed

text \<open>
  The loop body for a datagram; the first component of the result tells whether the loop
  is left by \<open>break\<close>.
\<close>

definition on_datagram_v1 :: "byte list \<Rightarrow> int \<Rightarrow> receiver_v1 \<Rightarrow> bool \<times> receiver_v1" where
  "on_datagram_v1 dgram now s =
     (let rxbuf = take MAX_PKT_v1 dgram; n = length rxbuf in
      if n < HDR_LEN_v1 then (False, s)
      else
        let seq = ntohl_at rxbuf;
            flags = ntohl_at (drop 4 rxbuf);
            payload = (if n > HDR_LEN_v1 then drop HDR_LEN_v1 rxbuf else [])
        in
        if seq < expected_v1 s then (False, s)
        else
          let s1 = (if seq = expected_v1 s
                    then flush_v1 ((if payload \<noteq> [] then outptr_write payload s else s)
                                     \<lparr>expected_v1 := expected_v1 s + 1\<rparr>)
                    else if buffer_v1 s seq = None
                      then s\<lparr>buffer_v1 := (buffer_v1 s)(seq \<mapsto> payload)\<rparr>
                      else s);
              s2 = (if flags AND FLAG_FINAL \<noteq> 0
                    then s1\<lparr>final_seen_v1 := True, final_seq_v1 := seq, final_at_v1 := now,
                            cerr_v1 := cerr_v1 s1 @ [FinalSeen seq]\<rparr>
                    else s1)
          in
          if final_seen_v1 s2 \<and> expected_v1 s2 > final_seq_v1 s2
          then (True, s2\<lparr>cerr_v1 := cerr_v1 s2 @ [Finishing]\<rparr>)
          else (False, s2))"

text \<open>
  One return of \<open>recv\<close>. On a receive timeout, a final marker older than \<open>timeout\<close>
  seconds makes the program report the gap and leave the loop.
\<close>

definition step_v1 :: "int \<Rightarrow> event \<Rightarrow> receiver_v1 \<Rightarrow> bool \<times> receiver_v1" where
  "step_v1 tmo ev s =
     (case ev of
        RecvError \<Rightarrow> (True, s\<lparr>cerr_v1 := cerr_v1 s @ [RecvFailed_v1]\<rparr>)
      | RecvTimeout now \<Rightarrow>
          if final_seen_v1 s \<and> elapsed_seconds now (final_at_v1 s) > tmo
          then (True, s\<lparr>cerr_v1 := cerr_v1 s @
                  [TimeoutMissing (expected_v1 s) (final_seq_v1 s) (card (dom (buffer_v1 s)))]\<rparr>)
          else (False, s)
      | Datagram dgram now granted \<Rightarrow> on_datagram_v1 dgram now s)"

fun run_loop_v1 :: "int \<Rightarrow> event list \<Rightarrow> receiver_v1 \<Rightarrow> bool \<times> receiver_v1" where
  "run_loop_v1 tmo [] s = (False, s)"
| "run_loop_v1 tmo (ev # evs) s =
     (case step_v1 tmo ev s of (brk, s') \<Rightarrow> if brk then (True, s') else run_loop_v1 tmo evs s')"

definition close_v1 :: "receiver_v1 \<Rightarrow> receiver_v1" where
  "close_v1 s = (if is_open (fout_v1 s) then s\<lparr>fout_v1 := ofstream_close (fout_v1 s)\<rparr> else s)"

text \<open>
  The program on a finite sequence of returns of \<open>recv\<close>: the output file could not be
  created, the loop has not been left by the end of the sequence, or the state at
  \<open>return 0\<close>, after the flush and the close that follow the loop.
\<close>

datatype outcome_v1 = CannotCreateFile | StillReceiving | Returned receiver_v1

definition receiver_main_v1 :: "string \<Rightarrow> bool \<Rightarrow> int \<Rightarrow> event list \<Rightarrow> outcome_v1" where
  "receiver_main_v1 outfile granted tmo evs =
     (case receiver_init_v1 outfile granted of
        None \<Rightarrow> CannotCreateFile
      | Some s0 \<Rightarrow>
          (case run_loop_v1 tmo evs s0 of
             (True, s) \<Rightarrow> Returned (close_v1 (flush_v1 s))
           | (False, s) \<Rightarrow> StillReceiving))"

subsection \<open>The sender (src/sender.cpp)\<close>

text \<open>
  The main loop \<open>while (!infile.eof() && !g_interrupted)\<close> from iteration \<open>i\<close>. The frame
  read last is marked final when the read has met the end of the file; \<open>seq\<close> is not
  advanced after a final frame or a failed \<open>sendto\<close>. On a stream that has failed without
  reaching the end of the file the loop reads nothing and does not end by itself, hence
  the result is optional. It holds the number of reads of \<open>g_interrupted\<close>, the value of
  \<open>seq\<close> after the loop, and the actions.
\<close>

partial_function (option) send_loop_v1 ::
  "sender_env \<Rightarrow> nat \<Rightarrow> ifstream \<Rightarrow> u32 \<Rightarrow> action list \<Rightarrow> (nat \<times> u32 \<times> action list) option" where
  "send_loop_v1 env i infile seq acts =
     (if eofbit infile then Some (i, seq, acts)
      else if interrupted env i then Some (Suc i, seq, acts)
      else
        case ifstream_read PAYLOAD_SIZE infile of (chunk, infile') \<Rightarrow>
          let hdr_flags = (if eofbit infile' then FLAG_FINAL else 0);
              pkt = wire_v1 seq hdr_flags chunk
          in
          if sendto_fails env i then Some (Suc i, seq, acts)
          else if hdr_flags AND FLAG_FINAL \<noteq> 0 then Some (Suc i, seq, acts @ [SendTo pkt])
          else send_loop_v1 env (Suc i) infile' (seq + 1) (acts @ [SendTo pkt]))"

fun final_markers_v1 :: "u32 \<Rightarrow> nat \<Rightarrow> action list" where
  "final_markers_v1 seq 0 = []"
| "final_markers_v1 seq (Suc k) =
     SendTo (wire_v1 seq FLAG_FINAL []) # SleepMs 200 # final_markers_v1 seq k"

definition sender_main_v1 :: "sender_env \<Rightarrow> byte list \<Rightarrow> action list option" where
  "sender_main_v1 env file =
     (case send_loop_v1 env 0 (ifstream_of file) 1 [] of
        None \<Rightarrow> None
      | Some (reads, seq, acts) \<Rightarrow>
          Some ((if interrupted env reads
                 then acts @ [SendTo (wire_v1 seq FLAG_FINAL [])]
                 else acts)
                @ final_markers_v1 seq 3))"

section \<open>Notions used to state and prove the properties\<close>

text \<open>
  The bytes that have reached the sink of stream \<open>sid\<close>: standard output when the
  receiver streams a single subscribed stream to it, the stream's file otherwise.
\<close>

definition sink_bytes :: "config \<Rightarrow> u32 \<Rightarrow> receiver \<Rightarrow> byte list" where
  "sink_bytes cfg sid s =
     (if single_to_stdout cfg then cout s else written (fout (stream_at sid (streams s))))"

text \<open>
  The delivery of one frame of stream \<open>sid\<close>, given as sequence, flags, payload and the
  time of arrival: the datagram the sender builds for it, received while the output file
  can be opened.
\<close>

definition frame_event :: "u32 \<Rightarrow> u32 \<times> u32 \<times> byte list \<times> int \<Rightarrow> event" where
  "frame_event sid f =
     (case f of (seq, flags, payload, now) \<Rightarrow> Datagram (wire sid seq flags payload) now True)"

text \<open>The sink as seen from inside the reordering code, and when a write reaches it.\<close>

definition sinkv :: "bool \<Rightarrow> byte list \<times> StreamState \<Rightarrow> byte list" where
  "sinkv to_stdout os = (if to_stdout then fst os else written (fout (snd os)))"

definition writable :: "bool \<Rightarrow> StreamState \<Rightarrow> bool" where
  "writable to_stdout st =
     (to_stdout \<or> (has_file st \<and> is_open (fout st) \<and> \<not> failed (fout st)))"

definition payloads :: "(u32 \<Rightarrow> byte list) \<Rightarrow> nat \<Rightarrow> nat \<Rightarrow> byte list" where
  "payloads p a b = concat (map (\<lambda>i. p (of_nat i)) [a..<b])"

definition same_ctl :: "StreamState \<Rightarrow> StreamState \<Rightarrow> bool" where
  "same_ctl st' st =
     (final_seen st' = final_seen st \<and> final_seq st' = final_seq st \<and>
      final_at st' = final_at st \<and> has_file st' = has_file st \<and>
      is_open (fout st') = is_open (fout st) \<and> failed (fout st') = failed (fout st))"

text \<open>
  What \<open>deliver\<close> does to the stream of the frame and to standard output, once the
  stream is looked up and its sink opened: reordering, final marker, and the closing of
  the file of a finished stream.
\<close>

definition ingest ::
  "bool \<Rightarrow> u32 \<Rightarrow> u32 \<Rightarrow> u32 \<Rightarrow> byte list \<Rightarrow> int \<Rightarrow> byte list \<times> StreamState
    \<Rightarrow> byte list \<times> StreamState" where
  "ingest b sid seq flags payload now os =
     (case reorder b seq payload (fst os) (snd os) of
        None \<Rightarrow> os
      | Some (out2, st2) \<Rightarrow>
          (let st3 = fst (mark_final sid seq flags now st2)
           in (out2, if finished st3 then close_file st3 else st3)))"

text \<open>
  The invariant behind the order property, for frames \<open>1..N\<close> with payloads \<open>p\<close>: \<open>en\<close> is
  the next sequence to emit as a natural number (\<open>expected\<close> is \<open>en\<close> modulo \<open>2^32\<close>), the sink
  holds the payloads before \<open>en\<close>, and while \<open>en \<le> N\<close> the buffer holds only frames still to
  come, every delivered sequence in \<open>D\<close> is either emitted or buffered, and the sink can be
  written.
\<close>

definition stream_inv_at ::
  "config \<Rightarrow> (u32 \<Rightarrow> byte list) \<Rightarrow> u32 \<Rightarrow> u32 set \<Rightarrow> byte list \<Rightarrow> StreamState \<Rightarrow> nat \<Rightarrow> bool" where
  "stream_inv_at cfg p N D out st en \<longleftrightarrow>
     1 \<le> en \<and> en \<le> Suc (unat N) \<and> expected st = of_nat en \<and>
     sinkv (single_to_stdout cfg) (out, st) = payloads p 1 en \<and>
     buffer st (of_nat en) = None \<and>
     (single_to_stdout cfg \<longrightarrow> \<not> has_file st) \<and>
     (\<not> single_to_stdout cfg \<and> 1 < en \<longrightarrow> has_file st) \<and>
     (en \<le> unat N \<longrightarrow>
        (\<not> single_to_stdout cfg \<longrightarrow> has_file st = is_open (fout st) \<and> \<not> failed (fout st)) \<and>
        (\<forall>k v. buffer st k = Some v \<longrightarrow> v = p k \<and> en \<le> unat k \<and> k \<le> N) \<and>
        (\<forall>k\<in>D. unat k < en \<or> buffer st k \<noteq> None) \<and>
        (final_seen st \<longrightarrow> final_seq st = N))"

definition order_inv ::
  "config \<Rightarrow> u32 \<Rightarrow> (u32 \<Rightarrow> byte list) \<Rightarrow> u32 \<Rightarrow> u32 set \<Rightarrow> receiver \<Rightarrow> bool" where
  "order_inv cfg sid p N D s \<longleftrightarrow>
     (streams s = [] \<or> streams s = [(sid, stream_at sid (streams s))]) \<and>
     (\<exists>en. stream_inv_at cfg p N D (cout s) (stream_at sid (streams s)) en)"

text \<open>No buffered entry sits at \<open>expected\<close>: of one stream, and of every stream.\<close>

definition head_free :: "StreamState \<Rightarrow> bool" where
  "head_free st \<longleftrightarrow> buffer st (expected st) = None"

definition heads_free :: "receiver \<Rightarrow> bool" where
  "heads_free s \<longleftrightarrow> list_all (\<lambda>(sid, st). head_free st) (streams s)"

text \<open>
  Notions for the treatment of duplicates. \<open>no_max_key\<close>: nothing is buffered under the
  largest sequence number, after which \<open>expected++\<close> wraps around. \<open>seen_inv k fl\<close>: a
  frame with sequence \<open>k\<close> and flags \<open>fl\<close> has been taken in, so \<open>k\<close> is emitted or
  buffered, and if the frame is final then it is emitted or it is the final marker on record.
\<close>

definition no_max_key :: "StreamState \<Rightarrow> bool" where
  "no_max_key st \<longleftrightarrow> buffer st (- 1) = None"

definition seen_inv :: "u32 \<Rightarrow> u32 \<Rightarrow> StreamState \<Rightarrow> bool" where
  "seen_inv k fl st \<longleftrightarrow>
     (k < expected st \<or> buffer st k \<noteq> None) \<and>
     (fl AND FLAG_FINAL \<noteq> 0 \<longrightarrow> k < expected st \<or> (final_seen st \<and> final_seq st = k))"

text \<open>
  What holds of the one stream of a receiver that has only seen frames of stream \<open>sid\<close>,
  none with the largest sequence number: a finished stream has its file closed, and once
  the stream exists it has a file exactly when the output is not standard output.
  \<open>dd_full\<close> adds that the loop has not been left.
\<close>

definition dd_stream :: "StreamState \<Rightarrow> bool" where
  "dd_stream st \<longleftrightarrow> no_max_key st \<and> head_free st \<and> (finished st \<longrightarrow> close_file st = st)"

definition dd_state :: "config \<Rightarrow> u32 \<Rightarrow> receiver \<Rightarrow> bool" where
  "dd_state cfg sid s \<longleftrightarrow>
     (streams s = [] \<or> streams s = [(sid, stream_at sid (streams s))]) \<and>
     dd_stream (stream_at sid (streams s)) \<and>
     (streams s \<noteq> [] \<longrightarrow> has_file (stream_at sid (streams s)) = (\<not> single_to_stdout cfg))"

definition dd_full :: "config \<Rightarrow> u32 \<Rightarrow> receiver \<Rightarrow> bool" where
  "dd_full cfg sid s \<longleftrightarrow>
     dd_state cfg sid s \<and>
     \<not> (finished (stream_at sid (streams s)) \<and> \<not> subscribe_all cfg \<and>
        all_done (streams s) (subs cfg))"

text \<open>
  The output and the stream state after the loop body has run for the frame \<open>f\<close> of stream
  \<open>sid\<close>, the only stream so far.
\<close>

definition after_frame ::
  "config \<Rightarrow> u32 \<Rightarrow> u32 \<times> u32 \<times> byte list \<times> int \<Rightarrow> receiver \<Rightarrow> byte list \<times> StreamState" where
  "after_frame cfg sid f s =
     (case f of (seq, flags, payload, now) \<Rightarrow>
        ingest (single_to_stdout cfg) sid seq flags (take PAYLOAD_SIZE payload) now
          (cout s, fst (open_sink cfg sid True (stream_at sid (streams s)))))"

text \<open>
  Two receiver states that agree on standard output and on their one stream, except for
  the time at which the final marker was last seen.
\<close>

definition same_but_final_at :: "u32 \<Rightarrow> receiver \<Rightarrow> receiver \<Rightarrow> bool" where
  "same_but_final_at sid s s' \<longleftrightarrow>
     cout s' = cout s \<and>
     (\<exists>st v. streams s = [(sid, st)] \<and> streams s' = [(sid, st\<lparr>final_at := v\<rparr>)])"

text \<open>
  A run of the receiver as the property of duplicates needs it: what \<open>recv\<close> returns is a
  frame of the one stream (sequence, flags, payload, time of arrival), a receive timeout
  at a given time, or an error.
\<close>

datatype arrival = Frame "u32 \<times> u32 \<times> byte list \<times> int" | TimeoutAt int | RecvFails

fun arrival_event :: "u32 \<Rightarrow> arrival \<Rightarrow> event" where
  "arrival_event sid (Frame f) = frame_event sid f"
| "arrival_event sid (TimeoutAt now) = RecvTimeout now"
| "arrival_event sid RecvFails = RecvError"

text \<open>
  The frames among the arrivals, in the order delivered.
\<close>

fun frames_of :: "arrival list \<Rightarrow> (u32 \<times> u32 \<times> byte list \<times> int) list" where
  "frames_of [] = []"
| "frames_of (Frame f # rest) = f # frames_of rest"
| "frames_of (TimeoutAt now # rest) = frames_of rest"
| "frames_of (RecvFails # rest) = frames_of rest"

fun is_timeout :: "arrival \<Rightarrow> bool" where
  "is_timeout (TimeoutAt now) = True"
| "is_timeout _ = False"

text \<open>
  The datagram that carries a frame.
\<close>

definition frame_wire :: "u32 \<Rightarrow> u32 \<times> u32 \<times> byte list \<times> int \<Rightarrow> byte list" where
  "frame_wire sid f = wire sid (fst f) (fst (snd f)) (fst (snd (snd f)))"

text \<open>
  A list of frames whose data ends at sequence \<open>m\<close>: no frame marked final lies before
  \<open>m\<close>, and every frame after \<open>m\<close> has an empty payload. The frames of the stream-id
  sender are of this kind: after a final data chunk \<open>n\<close> it only sends the empty marker
  \<open>n + 1\<close>. \<open>fits\<close> says the same of a single arrival, and that a frame does not carry the
  largest sequence number.
\<close>

definition data_ends_at :: "u32 \<Rightarrow> (u32 \<times> u32 \<times> byte list \<times> int) list \<Rightarrow> bool" where
  "data_ends_at m fs \<longleftrightarrow>
     (\<forall>f\<in>set fs. (fst (snd f) AND FLAG_FINAL \<noteq> 0 \<longrightarrow> m \<le> fst f) \<and>
                 (m < fst f \<longrightarrow> fst (snd (snd f)) = []))"

definition fits :: "u32 \<Rightarrow> arrival \<Rightarrow> bool" where
  "fits m a \<longleftrightarrow> data_ends_at m (frames_of [a]) \<and> (\<forall>f\<in>set (frames_of [a]). fst f \<noteq> - 1)"

text \<open>
  For such frames: the stream's record of the final marker is not before \<open>m\<close>, and what
  is buffered after \<open>m\<close> is empty. Two stream states with the same data (next sequence,
  buffer, bytes written) whose files may differ only once \<open>expected\<close> is past \<open>m\<close>; two
  receiver states whose one stream is so related; and a receiver whose one stream is past
  \<open>m\<close>.
\<close>

definition tail_empty :: "u32 \<Rightarrow> StreamState \<Rightarrow> bool" where
  "tail_empty m st \<longleftrightarrow>
     (final_seen st \<longrightarrow> m \<le> final_seq st) \<and>
     (\<forall>key p. buffer st key = Some p \<longrightarrow> m < key \<longrightarrow> p = [])"

definition same_data :: "u32 \<Rightarrow> StreamState \<Rightarrow> StreamState \<Rightarrow> bool" where
  "same_data m st st' \<longleftrightarrow>
     expected st' = expected st \<and> buffer st' = buffer st \<and> has_file st' = has_file st \<and>
     written (fout st') = written (fout st) \<and> (fout st' = fout st \<or> m < expected st)"

definition same_sink :: "u32 \<Rightarrow> config \<Rightarrow> u32 \<Rightarrow> receiver \<Rightarrow> receiver \<Rightarrow> bool" where
  "same_sink m cfg sid s s' \<longleftrightarrow>
     cout s' = cout s \<and> dd_state cfg sid s \<and> dd_state cfg sid s' \<and>
     ((streams s' = []) = (streams s = [])) \<and>
     same_data m (stream_at sid (streams s)) (stream_at sid (streams s')) \<and>
     tail_empty m (stream_at sid (streams s)) \<and> tail_empty m (stream_at sid (streams s'))"

definition past_end :: "u32 \<Rightarrow> config \<Rightarrow> u32 \<Rightarrow> receiver \<Rightarrow> bool" where
  "past_end m cfg sid s \<longleftrightarrow>
     dd_state cfg sid s \<and> streams s \<noteq> [] \<and> tail_empty m (stream_at sid (streams s)) \<and>
     m < expected (stream_at sid (streams s))"

section \<open>Example configurations\<close>

text \<open>
  Command lines used to run the model on concrete traffic: \<open>-s 42 -o out_{id}.mp4\<close>,
  \<open>-s all\<close> and \<open>-s 42 -o -\<close>, each with the default timeout of 10 seconds.
\<close>

definition cfg_one :: config where
  "cfg_one = \<lparr>subscribe_all = False, subs = [42], out_pattern = ''out_{id}.mp4'', timeout = 10\<rparr>"

definition cfg_all :: config where
  "cfg_all = \<lparr>subscribe_all = True, subs = [], out_pattern = ''stream_{id}.mp4'', timeout = 10\<rparr>"

definition cfg_stdout :: config where
  "cfg_stdout = \<lparr>subscribe_all = False, subs = [42], out_pattern = ''-'', timeout = 10\<rparr>"

text \<open>A receiver subscribed to two streams: \<open>-s 42,43\<close>.\<close>

definition cfg_two :: config where
  "cfg_two = \<lparr>subscribe_all = False, subs = [42, 43], out_pattern = ''out_{id}.mp4'', timeout = 10\<rparr>"

text \<open>A run of the sender that is never interrupted and in which every \<open>sendto\<close> succeeds.\<close>

definition quiet_env :: sender_env where
  "quiet_env = \<lparr>interrupted = (\<lambda>_. False), sendto_fails = (\<lambda>_. False)\<rparr>"

section \<open>Properties\<close>

lemma ntohl_at_htonl_bytes: "ntohl_at (htonl_bytes x @ rest) = x"
proof -
  have "push_bit 24 (ucast (ucast (drop_bit 24 x) :: byte)) OR
        push_bit 16 (ucast (ucast (drop_bit 16 x) :: byte)) OR
        push_bit 8 (ucast (ucast (drop_bit 8 x) :: byte)) OR
        ucast (ucast x :: byte) = x"
  proof (rule bit_word_eqI)
    fix n assume "n < LENGTH(32)"
    then show "bit (push_bit 24 (ucast (ucast (drop_bit 24 x) :: byte)) OR
        push_bit 16 (ucast (ucast (drop_bit 16 x) :: byte)) OR
        push_bit 8 (ucast (ucast (drop_bit 8 x) :: byte)) OR
        ucast (ucast x :: byte) :: u32) n = bit x n"
      by (cases "n < 8"; cases "n < 16"; cases "n < 24") (auto simp: bit_simps)
  qed
  then show ?thesis by (simp add: htonl_bytes_def)
qed

declare flush_buffered.simps [simp del]
declare final_flush.simps [simp del]
declare send_loop.simps [simp del]

lemmas run_defs =
  wire_def htonl_bytes_def receiver_init_def step_def on_datagram_def decode_def deliver_def
  MAX_PKT_def HDR_LEN_def PAYLOAD_SIZE_def ensure_stream_def stream_at_def new_stream_def
  open_sink_def single_to_stdout_def ofstream_open_def closed_ofstream_def reorder_def emit_def
  ofstream_write_def mark_final_def FLAG_FINAL_def finished_def close_file_def
  elapsed_seconds_def ofstream_close_def flush_buffered.simps

subsection \<open>Decoding\<close>

lemma length_htonl_bytes: "length (htonl_bytes x) = 4"
  by (simp add: htonl_bytes_def)

lemma decode_None_iff: "decode d = None \<longleftrightarrow> length d < HDR_LEN"
  by (auto simp: decode_def Let_def MAX_PKT_def HDR_LEN_def PAYLOAD_SIZE_def)

lemma decode_Some:
  "HDR_LEN \<le> length d \<Longrightarrow>
   decode d = Some (ntohl_at d, ntohl_at (drop 4 d), ntohl_at (drop 8 d),
                    take PAYLOAD_SIZE (drop HDR_LEN d))"
proof -
  assume len: "HDR_LEN \<le> length d"
  then obtain a0 a1 a2 a3 b0 b1 b2 b3 c0 c1 c2 c3 r
    where d: "d = a0 # a1 # a2 # a3 # b0 # b1 # b2 # b3 # c0 # c1 # c2 # c3 # r"
    by (auto simp: HDR_LEN_def numeral_eq_Suc Suc_le_length_iff)
  show ?thesis
    by (auto simp: d decode_def Let_def MAX_PKT_def HDR_LEN_def PAYLOAD_SIZE_def)
qed

lemma decode_wire:
  "decode (wire sid seq flags payload) = Some (sid, seq, flags, take PAYLOAD_SIZE payload)"
proof -
  have len: "HDR_LEN \<le> length (wire sid seq flags payload)"
    by (simp add: wire_def HDR_LEN_def length_htonl_bytes)
  have a: "ntohl_at (wire sid seq flags payload) = sid"
    unfolding wire_def by (rule ntohl_at_htonl_bytes)
  have b: "ntohl_at (drop 4 (wire sid seq flags payload)) = seq"
    unfolding wire_def by (simp add: length_htonl_bytes ntohl_at_htonl_bytes)
  have c: "ntohl_at (drop 8 (wire sid seq flags payload)) = flags"
    unfolding wire_def by (simp add: length_htonl_bytes ntohl_at_htonl_bytes)
  have d: "drop HDR_LEN (wire sid seq flags payload) = payload"
    unfolding wire_def by (simp add: length_htonl_bytes HDR_LEN_def)
  show ?thesis
    using decode_Some[OF len] by (simp add: a b c d)
qed

lemma on_datagram_short: "length d < HDR_LEN \<Longrightarrow> on_datagram cfg d now granted s = (False, s)"
  by (simp add: on_datagram_def decode_None_iff[THEN iffD2])

text \<open>
  Claim C9, as the code has it. A datagram is dropped, with no change of state, exactly
  when it is shorter than the 12-byte header. Every datagram of at least 12 bytes is
  decoded: stream id, sequence and flags are the big-endian words at offsets 0, 4 and 8,
  and what the sender encoded comes back. The payload is what follows the header inside
  the receive buffer of \<open>MAX_PKT = 1212\<close> bytes: at most the first 1200 payload bytes of
  the datagram. A longer datagram is accepted with its payload cut to 1200 bytes.
\<close>

theorem decode_header_and_bounded_payload:
  "(decode d = None \<longleftrightarrow> length d < HDR_LEN) \<and>
   (length d < HDR_LEN \<longrightarrow> on_datagram cfg d now granted s = (False, s)) \<and>
   (HDR_LEN \<le> length d \<longrightarrow>
      decode d = Some (ntohl_at d, ntohl_at (drop 4 d), ntohl_at (drop 8 d),
                       take PAYLOAD_SIZE (drop HDR_LEN d))) \<and>
   decode (wire sid seq flags payload) = Some (sid, seq, flags, take PAYLOAD_SIZE payload)"
  using decode_None_iff decode_Some decode_wire on_datagram_short by blast

theorem decode_header_and_bounded_payload_witness:
  "decode [0, 0, 0, 42, 0, 0, 0, 7, 0, 0, 0, 1, 97, 98] = Some (42, 7, 1, [97, 98]) \<and>
   decode [0, 0, 0, 42, 0, 0, 0, 7, 0, 0, 0] = None \<and>
   on_datagram cfg_one [0, 0, 0, 42, 0, 0, 0, 7, 0, 0, 0] 0 True receiver_init
     = (False, receiver_init)"
proof -
  have long: "HDR_LEN \<le> length [0, 0, 0, 42, 0, 0, 0, 7, 0, 0, 0, 1, 97, 98 :: byte]"
    by (simp add: HDR_LEN_def)
  have short: "length [0, 0, 0, 42, 0, 0, 0, 7, 0, 0, 0 :: byte] < HDR_LEN"
    by (simp add: HDR_LEN_def)
  from long
    decode_header_and_bounded_payload
      [of "[0, 0, 0, 42, 0, 0, 0, 7, 0, 0, 0, 1, 97, 98]" cfg_one 0 True receiver_init 0 0 0 "[]"]
  have "decode [0, 0, 0, 42, 0, 0, 0, 7, 0, 0, 0, 1, 97, 98] = Some (42, 7, 1, [97, 98])"
    by (simp add: PAYLOAD_SIZE_def HDR_LEN_def)
  moreover from short
    decode_header_and_bounded_payload
      [of "[0, 0, 0, 42, 0, 0, 0, 7, 0, 0, 0]" cfg_one 0 True receiver_init 0 0 0 "[]"]
  have "decode [0, 0, 0, 42, 0, 0, 0, 7, 0, 0, 0] = None"
    and "on_datagram cfg_one [0, 0, 0, 42, 0, 0, 0, 7, 0, 0, 0] 0 True receiver_init
      = (False, receiver_init)"
    by simp_all
  ultimately show ?thesis by simp
qed

text \<open>
  Claim C9 as stated fails: a datagram with 1201 payload bytes is decoded, but the payload
  handed on has 1200 bytes, not all the remaining bytes of the datagram.
\<close>

theorem decode_truncates_long_datagram:
  "map_option (\<lambda>(sid, seq, flags, payload). (sid, seq, flags, length payload))
     (decode (wire 42 1 0 (replicate 1201 7))) = Some (42, 1, 0, 1200) \<and>
   length (drop HDR_LEN (wire 42 1 0 (replicate 1201 7))) = 1201"
proof
  show "map_option (\<lambda>(sid, seq, flags, payload). (sid, seq, flags, length payload))
     (decode (wire 42 1 0 (replicate 1201 7))) = Some (42, 1, 0, 1200)"
    by (simp add: decode_wire PAYLOAD_SIZE_def)
  show "length (drop HDR_LEN (wire 42 1 0 (replicate 1201 7))) = 1201"
    by (simp add: HDR_LEN_def wire_def length_htonl_bytes)
qed

subsection \<open>Reserved flag bits\<close>

lemma mark_final_bit0:
  "f1 AND 1 = f2 AND 1 \<Longrightarrow> mark_final sid seq f1 now st = mark_final sid seq f2 now st"
  by (simp add: mark_final_def FLAG_FINAL_def)

lemma deliver_bit0:
  "f1 AND 1 = f2 AND 1 \<Longrightarrow>
   deliver cfg sid seq f1 payload now granted s = deliver cfg sid seq f2 payload now granted s"
  unfolding deliver_def by (simp only: mark_final_bit0[of f1 f2])

lemma decode_flags_word:
  assumes "length h = 8"
  shows "decode (h @ htonl_bytes f @ p)
    = Some (ntohl_at h, ntohl_at (drop 4 h), f, take PAYLOAD_SIZE p)"
proof -
  from assms obtain a b c d e g i j where h: "h = [a, b, c, d, e, g, i, j]"
    by (auto simp: length_Suc_conv numeral_eq_Suc)
  have len: "HDR_LEN \<le> length (h @ htonl_bytes f @ p)"
    by (simp add: h HDR_LEN_def length_htonl_bytes)
  show ?thesis
    using decode_Some[OF len]
    by (simp add: h HDR_LEN_def length_htonl_bytes ntohl_at_htonl_bytes)
qed

text \<open>
  Claim C10. Two datagrams of at least 12 bytes that agree everywhere but in bits 1 to 31
  of the flags word (the same eight bytes of stream id and sequence, flags words with the
  same bit 0, the same bytes after the header) are both decoded, and one step of the
  receive loop on either gives the same result: the same decision to leave the loop, the
  same stream states, the same bytes on standard output and in every file.
\<close>

theorem reserved_flag_bits_ignored:
  assumes "length h = 8" and "f1 AND 1 = f2 AND 1"
  shows "decode (h @ htonl_bytes f1 @ p) \<noteq> None \<and> decode (h @ htonl_bytes f2 @ p) \<noteq> None \<and>
    step cfg (Datagram (h @ htonl_bytes f1 @ p) now granted) s
      = step cfg (Datagram (h @ htonl_bytes f2 @ p) now granted) s"
  using assms
  by (simp add: step_def on_datagram_def decode_flags_word deliver_bit0[of f1 f2])

theorem reserved_flag_bits_ignored_witness:
  "length [0, 0, 0, 42, 0, 0, 0, 1 :: byte] = 8 \<and> (1 :: u32) AND 1 = 4294967295 AND 1 \<and>
   step cfg_one (Datagram ([0, 0, 0, 42, 0, 0, 0, 1] @ htonl_bytes 1 @ [97]) 0 True) receiver_init
     = step cfg_one (Datagram ([0, 0, 0, 42, 0, 0, 0, 1] @ htonl_bytes 4294967295 @ [97]) 0 True)
         receiver_init"
proof -
  have a: "length [0, 0, 0, 42, 0, 0, 0, 1 :: byte] = 8" by simp
  have b: "(1 :: u32) AND 1 = 4294967295 AND 1" by simp
  from reserved_flag_bits_ignored[OF a b, of "[97]" cfg_one 0 True receiver_init] a b
  show ?thesis by blast
qed

subsection \<open>Stale frames\<close>

lemma deliver_stale:
  assumes "map_of (streams s) sid = Some st" and "seq < expected st"
  shows "fst (deliver cfg sid seq flags payload now granted s) = False"
    and "cout (snd (deliver cfg sid seq flags payload now granted s)) = cout s"
    and "has_file st \<or> single_to_stdout cfg \<Longrightarrow>
      streams (snd (deliver cfg sid seq flags payload now granted s)) = streams s"
    and "\<exists>st'. map_of (streams (snd (deliver cfg sid seq flags payload now granted s))) sid
           = Some st' \<and>
         expected st' = expected st \<and> buffer st' = buffer st \<and>
         final_seen st' = final_seen st \<and> final_seq st' = final_seq st \<and>
         final_at st' = final_at st \<and> written (fout st') = written (fout st)"
  using assms
  by (auto simp: deliver_def ensure_stream_def stream_at_def open_sink_def reorder_def Let_def
      AList.update_triv update_Some_unfold ofstream_open_def split: prod.splits)

text \<open>
  Claim C8, as the code has it. A frame whose sequence is below its stream's \<open>expected\<close>
  does not end the loop, writes nothing to standard output or to the stream's file, and
  leaves \<open>expected\<close>, the buffer, \<open>final_seen\<close>, \<open>final_seq\<close> and \<open>final_at\<close> as they were.
  When the stream already has its file, or the receiver writes to standard output, all
  stream states are left exactly as they were. (For a stream without a file the attempt
  to open it comes before the comparison, for a stale frame too.)
\<close>

theorem stale_frame_dropped:
  assumes "map_of (streams s) sid = Some st" and "seq < expected st"
  shows "fst (deliver cfg sid seq flags payload now granted s) = False \<and>
    cout (snd (deliver cfg sid seq flags payload now granted s)) = cout s \<and>
    (\<exists>st'. map_of (streams (snd (deliver cfg sid seq flags payload now granted s))) sid
           = Some st' \<and>
         expected st' = expected st \<and> buffer st' = buffer st \<and>
         final_seen st' = final_seen st \<and> final_seq st' = final_seq st \<and>
         final_at st' = final_at st \<and> written (fout st') = written (fout st)) \<and>
    (has_file st \<or> single_to_stdout cfg \<longrightarrow>
       streams (snd (deliver cfg sid seq flags payload now granted s)) = streams s)"
  using assms
  by (auto simp: deliver_def ensure_stream_def stream_at_def open_sink_def reorder_def Let_def
      AList.update_triv update_Some_unfold ofstream_open_def split: prod.splits)

theorem stale_frame_dropped_witness:
  "deliver cfg_one 42 1 0 [97] 5 True
     \<lparr>streams = [(42, \<lparr>expected = 2, buffer = Map.empty, final_seen = False,
         final_seq = 0, final_at = 0,
         fout = \<lparr>is_open = True, failed = False, written = [97]\<rparr>, has_file = True\<rparr>)],
       cout = [], cerr = [Opened 42]\<rparr> =
   (False, \<lparr>streams = [(42, \<lparr>expected = 2, buffer = Map.empty, final_seen = False,
         final_seq = 0, final_at = 0,
         fout = \<lparr>is_open = True, failed = False, written = [97]\<rparr>, has_file = True\<rparr>)],
       cout = [], cerr = [Opened 42]\<rparr>)"
proof -
  let ?st = "\<lparr>expected = 2, buffer = Map.empty, final_seen = False,
         final_seq = 0, final_at = 0,
         fout = \<lparr>is_open = True, failed = False, written = [97]\<rparr>, has_file = True\<rparr>"
  let ?s = "\<lparr>streams = [(42, ?st)], cout = [], cerr = [Opened 42]\<rparr>"
  have a: "map_of (streams ?s) 42 = Some ?st" by simp
  have b: "(1::u32) < expected ?st" by simp
  from stale_frame_dropped[OF a b, of cfg_one 0 "[97]" 5 True]
  have "fst (deliver cfg_one 42 1 0 [97] 5 True ?s) = False"
    and "streams (snd (deliver cfg_one 42 1 0 [97] 5 True ?s)) = streams ?s"
    and "cout (snd (deliver cfg_one 42 1 0 [97] 5 True ?s)) = cout ?s"
    by simp_all
  moreover have "cerr (snd (deliver cfg_one 42 1 0 [97] 5 True ?s)) = cerr ?s"
    by (simp add: run_defs cfg_one_def)
  ultimately show ?thesis
    by (cases "deliver cfg_one 42 1 0 [97] 5 True ?s") auto
qed

text \<open>
  Claim C8 as stated fails on the sink: the first datagram of stream 42 arrives while its
  file cannot be opened, so the stream exists with \<open>expected = 2\<close> and no file; a stale
  copy of frame 1 that arrives when the file can be opened opens it.
\<close>

theorem stale_frame_opens_sink:
  "run_loop cfg_one [Datagram (wire 42 1 0 [97]) 0 False] receiver_init =
     (False, \<lparr>streams = [(42, \<lparr>expected = 2, buffer = Map.empty, final_seen = False,
         final_seq = 0, final_at = 0,
         fout = \<lparr>is_open = False, failed = True, written = []\<rparr>, has_file = False\<rparr>)],
       cout = [], cerr = [CannotOpen 42]\<rparr>) \<and>
   step cfg_one (Datagram (wire 42 1 0 [97]) 5 True)
     \<lparr>streams = [(42, \<lparr>expected = 2, buffer = Map.empty, final_seen = False,
         final_seq = 0, final_at = 0,
         fout = \<lparr>is_open = False, failed = True, written = []\<rparr>, has_file = False\<rparr>)],
       cout = [], cerr = [CannotOpen 42]\<rparr> =
     (False, \<lparr>streams = [(42, \<lparr>expected = 2, buffer = Map.empty, final_seen = False,
         final_seq = 0, final_at = 0,
         fout = \<lparr>is_open = True, failed = False, written = []\<rparr>, has_file = True\<rparr>)],
       cout = [], cerr = [CannotOpen 42, Opened 42]\<rparr>)"
  by (simp add: run_defs cfg_one_def)

subsection \<open>The finalization timeout\<close>

lemma run_loop_append:
  "run_loop cfg (xs @ ys) s =
     (case run_loop cfg xs s of (brk, s') \<Rightarrow> if brk then (True, s') else run_loop cfg ys s')"
  by (induction xs arbitrary: s) (auto split: prod.splits)

lemma timeouts_idle:
  "run_loop cfg_one (map RecvTimeout ts)
     \<lparr>streams = [(42, \<lparr>expected = 2, buffer = [3 \<mapsto> [99]], final_seen = False,
         final_seq = 3, final_at = 0,
         fout = \<lparr>is_open = True, failed = False, written = [97]\<rparr>, has_file = True\<rparr>)],
       cout = [], cerr = [Opened 42, FinalMarkerSeen 42 3, TimeoutWaiting 42]\<rparr>
   = (False, \<lparr>streams = [(42, \<lparr>expected = 2, buffer = [3 \<mapsto> [99]], final_seen = False,
         final_seq = 3, final_at = 0,
         fout = \<lparr>is_open = True, failed = False, written = [97]\<rparr>, has_file = True\<rparr>)],
       cout = [], cerr = [Opened 42, FinalMarkerSeen 42 3, TimeoutWaiting 42]\<rparr>)"
  by (induction ts) (simp_all add: step_def cfg_one_def)

text \<open>
  Claim C2, at the failing input. The receiver is subscribed to stream 42 only. Frame 1
  and the final frame 3 arrive, frame 2 is lost. At the first receive timeout more than
  10 seconds after the final marker the stream's timeout fires: the code logs it and
  clears \<open>final_seen\<close>. The completion test \<open>final_seen && expected > final_seq\<close> is then
  false for the stream, so the loop is not left, neither at that timeout nor at any later
  one: the file stays open and the program stays in the loop.
\<close>

theorem timed_out_stream_never_ends_loop:
  "run_loop cfg_one
     ([Datagram (wire 42 1 0 [97]) 0 True, Datagram (wire 42 3 1 [99]) 0 True,
       RecvTimeout 11000000000] @ map RecvTimeout ts) receiver_init
   = (False, \<lparr>streams = [(42, \<lparr>expected = 2, buffer = [3 \<mapsto> [99]], final_seen = False,
         final_seq = 3, final_at = 0,
         fout = \<lparr>is_open = True, failed = False, written = [97]\<rparr>, has_file = True\<rparr>)],
       cout = [], cerr = [Opened 42, FinalMarkerSeen 42 3, TimeoutWaiting 42]\<rparr>)"
proof -
  have "run_loop cfg_one
     [Datagram (wire 42 1 0 [97]) 0 True, Datagram (wire 42 3 1 [99]) 0 True,
       RecvTimeout 11000000000] receiver_init
   = (False, \<lparr>streams = [(42, \<lparr>expected = 2, buffer = [3 \<mapsto> [99]], final_seen = False,
         final_seq = 3, final_at = 0,
         fout = \<lparr>is_open = True, failed = False, written = [97]\<rparr>, has_file = True\<rparr>)],
       cout = [], cerr = [Opened 42, FinalMarkerSeen 42 3, TimeoutWaiting 42]\<rparr>)"
    by (simp add: run_defs cfg_one_def)
  then show ?thesis
    unfolding run_loop_append by (simp add: timeouts_idle del: run_loop.simps)
qed

text \<open>
  Claim C3, at the failing input. Frames 1, 2 and the final frame 4 of stream 42 arrive,
  frame 3 never does, and a receive timeout comes 11 seconds after the final marker. The
  file holds the bytes of frames 1 and 2 only, but the stream is not forced to completion:
  the file is still open, the loop goes on, and the only report is the line naming the
  stream: no expected sequence, no final sequence, no count of buffered entries.
\<close>

theorem timeout_tick_reports_no_gap:
  "run_loop cfg_one
     [Datagram (wire 42 1 0 [97]) 0 True, Datagram (wire 42 2 0 [98]) 0 True,
      Datagram (wire 42 4 1 [100]) 0 True, RecvTimeout 11000000000] receiver_init
   = (False, \<lparr>streams = [(42, \<lparr>expected = 3, buffer = [4 \<mapsto> [100]], final_seen = False,
         final_seq = 4, final_at = 0,
         fout = \<lparr>is_open = True, failed = False, written = [97, 98]\<rparr>, has_file = True\<rparr>)],
       cout = [], cerr = [Opened 42, FinalMarkerSeen 42 4, TimeoutWaiting 42]\<rparr>)"
  by (simp add: run_defs cfg_one_def)


text \<open>
  With \<open>-s all\<close> the loop is left by an error of \<open>recv\<close> and by nothing else.
\<close>

lemma deliver_accept_all:
  "subscribe_all cfg \<Longrightarrow> \<not> fst (deliver cfg sid seq flags payload now granted s)"
  by (simp add: deliver_def Let_def split: prod.splits option.splits)

lemma step_accept_all:
  assumes "subscribe_all cfg"
  shows "fst (step cfg ev s) = (ev = RecvError)"
proof (cases ev)
  case (Datagram d now g)
  with assms show ?thesis
    by (simp add: step_def on_datagram_def deliver_accept_all split: option.splits prod.splits)
next
  case (RecvTimeout now)
  with assms show ?thesis by (simp add: step_def split: prod.splits)
next
  case RecvError
  then show ?thesis by (simp add: step_def)
qed

lemma run_loop_accept_all:
  assumes "subscribe_all cfg"
  shows "fst (run_loop cfg evs s) = (RecvError \<in> set evs)"
proof (induction evs arbitrary: s)
  case Nil
  then show ?case by simp
next
  case (Cons ev evs)
  obtain brk s1 where st: "step cfg ev s = (brk, s1)" by force
  with step_accept_all[OF assms, of ev s] have b: "brk = (ev = RecvError)" by simp
  show ?case using Cons.IH[of s1] by (auto simp: st b)
qed

text \<open>
  With a set of subscribed streams, a receive timeout at which the timeout of a subscribed
  stream fires never leaves the loop, since it clears the \<open>final_seen\<close> the completion
  test asks for.
\<close>

lemma check_timeouts_clears:
  assumes "map_of strs sid = Some st" and "final_seen st"
    and "elapsed_seconds now (final_at st) > tmo"
  shows "\<exists>st'. map_of (fst (check_timeouts tmo now strs)) sid = Some st' \<and> \<not> final_seen st'"
  using assms
proof (induction strs)
  case Nil
  then show ?case by simp
next
  case (Cons p strs)
  obtain k v where p: "p = (k, v)" by force
  obtain rest' msgs where r: "check_timeouts tmo now strs = (rest', msgs)" by force
  show ?case
  proof (cases "k = sid")
    case True
    with Cons.prems p show ?thesis by (simp add: r)
  next
    case False
    with Cons.prems p have "map_of strs sid = Some st" by simp
    from Cons.IH[OF this Cons.prems(2,3)] r False p show ?thesis by (auto simp: Let_def)
  qed
qed

lemma all_done_needs_final_seen:
  assumes "sid \<in> set ss" and "map_of strs sid = Some st" and "\<not> final_seen st"
  shows "\<not> all_done strs ss"
  using assms by (induction ss) (auto split: option.splits)

lemma timeout_tick_keeps_loop:
  assumes "sid \<in> set (subs cfg)" and "map_of (streams s) sid = Some st" and "final_seen st"
    and "elapsed_seconds now (final_at st) > timeout cfg"
  shows "\<not> fst (step cfg (RecvTimeout now) s)"
proof -
  obtain strs msgs where c: "check_timeouts (timeout cfg) now (streams s) = (strs, msgs)" by force
  from check_timeouts_clears[OF assms(2,3,4)] c obtain st' where
    "map_of strs sid = Some st'" "\<not> final_seen st'" by auto
  from all_done_needs_final_seen[OF assms(1) this] show ?thesis
    by (simp add: step_def c)
qed

text \<open>
  This also undoes a completion reached before: stream 42 is received in full, a receive
  timeout comes 11 seconds later, then stream 43 is received in full. Both subscribed
  streams have been reported finished, and the loop is not left; without the timeout in
  between it is.
\<close>

lemma completed_stream_forgotten_after_timeout:
  "fst (run_loop cfg_two
     [Datagram (wire 42 1 1 [97]) 0 True, RecvTimeout 11000000000,
      Datagram (wire 43 1 1 [98]) 12000000000 True] receiver_init) = False
   \<and> cerr (snd (run_loop cfg_two
     [Datagram (wire 42 1 1 [97]) 0 True, RecvTimeout 11000000000,
      Datagram (wire 43 1 1 [98]) 12000000000 True] receiver_init))
     = [Opened 42, FinalMarkerSeen 42 1, StreamFinished 42 2 1, TimeoutWaiting 42,
        Opened 43, FinalMarkerSeen 43 1, StreamFinished 43 2 1]
   \<and> fst (run_loop cfg_two
     [Datagram (wire 42 1 1 [97]) 0 True,
      Datagram (wire 43 1 1 [98]) 12000000000 True] receiver_init) = True"
  by (simp add: run_defs cfg_two_def)


subsection \<open>Reordering of a single stream\<close>

lemma emit_writable:
  assumes "writable b st"
  shows "sinkv b (emit b v (out, st)) = sinkv b (out, st) @ v"
    and "expected (snd (emit b v (out, st))) = expected st"
    and "buffer (snd (emit b v (out, st))) = buffer st"
    and "same_ctl (snd (emit b v (out, st))) st"
    and "\<not> b \<Longrightarrow> fst (emit b v (out, st)) = out"
    and "b \<Longrightarrow> snd (emit b v (out, st)) = st"
  using assms
  by (auto simp: emit_def sinkv_def writable_def same_ctl_def ofstream_write_def)

lemma payloads_snoc: "a \<le> b \<Longrightarrow> payloads p a (Suc b) = payloads p a b @ p (of_nat b)"
  by (simp add: payloads_def)

lemma payloads_cons: "a < b \<Longrightarrow> payloads p a b = p (of_nat a) @ payloads p (Suc a) b"
  by (simp add: payloads_def upt_conv_Cons)

lemma payloads_same [simp]: "payloads p a a = []"
  by (simp add: payloads_def)

lemma flush_buffered_spec:
  fixes N :: u32
  assumes "writable b st" and "expected st = of_nat en" and "en \<le> Suc (unat N)"
    and "\<forall>k v. buffer st k = Some v \<longrightarrow> v = p k \<and> en \<le> unat k \<and> k \<le> N"
  shows "\<exists>en' out' st'. flush_buffered b out st = (out', st') \<and> en \<le> en' \<and> en' \<le> Suc (unat N) \<and>
      expected st' = of_nat en' \<and>
      sinkv b (out', st') = sinkv b (out, st) @ payloads p en en' \<and>
      buffer st' (of_nat en') = None \<and>
      (\<forall>k. buffer st' k = (if unat k < en' then None else buffer st k)) \<and>
      same_ctl st' st \<and> (\<not> b \<longrightarrow> out' = out) \<and> (b \<longrightarrow> written (fout st') = written (fout st))"
  using assms
proof (induction "Suc (unat N) - en" arbitrary: en out st)
  case 0
  then have en: "en = Suc (unat N)" by simp
  have none: "buffer st (of_nat en) = None"
  proof (cases "buffer st (of_nat en)")
    case (Some v)
    with "0.prems"(4) have "en \<le> unat (of_nat en :: u32)" "(of_nat en :: u32) \<le> N" by auto
    then have "en \<le> unat N" by (simp add: word_le_nat_alt)
    with en show ?thesis by simp
  qed simp
  have "flush_buffered b out st = (out, st)"
    using none "0.prems"(2) by (subst flush_buffered.simps) simp
  moreover have "\<forall>k. buffer st k = (if unat k < en then None else buffer st k)"
    using "0.prems"(4) by (metis not_Some_eq not_le)
  ultimately show ?case
    using "0.prems" none by (intro exI[of _ en] exI[of _ out] exI[of _ st]) (simp add: same_ctl_def)
next
  case (Suc d)
  show ?case
  proof (cases "buffer st (of_nat en)")
    case None
    have "flush_buffered b out st = (out, st)"
      using None Suc.prems(2) by (subst flush_buffered.simps) simp
    moreover have "\<forall>k. buffer st k = (if unat k < en then None else buffer st k)"
      using Suc.prems(4) by (metis not_Some_eq not_le)
    ultimately show ?thesis
      using Suc.prems None by (intro exI[of _ en] exI[of _ out] exI[of _ st]) (simp add: same_ctl_def)
  next
    case (Some v)
    with Suc.prems(4) have v: "v = p (of_nat en)" and le1: "en \<le> unat (of_nat en :: u32)"
      and le2: "(of_nat en :: u32) \<le> N" by auto
    from le2 have "unat (of_nat en :: u32) \<le> unat N" by (simp add: word_le_nat_alt)
    with le1 have enN: "en \<le> unat N" by simp
    then have un: "unat (of_nat en :: u32) = en" by (rule le_unat_uoi)
    let ?os = "emit b v (out, st)"
    let ?st1 = "(snd ?os)\<lparr>buffer := (buffer st)(expected st := None), expected := expected st + 1\<rparr>"
    have step: "flush_buffered b out st = flush_buffered b (fst ?os) ?st1"
      using Some Suc.prems(2) by (subst flush_buffered.simps) simp
    note em = emit_writable[OF Suc.prems(1), of v out]
    have w1: "writable b ?st1"
      using Suc.prems(1) em(4) by (auto simp: writable_def same_ctl_def)
    have e1: "expected ?st1 = of_nat (Suc en)"
      using Suc.prems(2) by simp
    have b1: "\<forall>k w. buffer ?st1 k = Some w \<longrightarrow> w = p k \<and> Suc en \<le> unat k \<and> k \<le> N"
    proof (intro allI impI)
      fix k w assume "buffer ?st1 k = Some w"
      then have kne: "k \<noteq> of_nat en" and bk: "buffer st k = Some w"
        using Suc.prems(2) by (auto split: if_splits)
      from bk Suc.prems(4) have *: "w = p k" "en \<le> unat k" "k \<le> N" by auto
      have "unat k \<noteq> en" using kne by (metis of_nat_unat ucast_id)
      with * show "w = p k \<and> Suc en \<le> unat k \<and> k \<le> N" by simp
    qed
    have d: "d = Suc (unat N) - Suc en" using Suc.hyps(2) by simp
    have le: "Suc en \<le> Suc (unat N)" using enN by simp
    from Suc.hyps(1)[OF d w1 e1 le b1, of "fst ?os"]
    obtain en' out' st' where r: "flush_buffered b (fst ?os) ?st1 = (out', st')"
      "Suc en \<le> en'" "en' \<le> Suc (unat N)" "expected st' = of_nat en'"
      "sinkv b (out', st') = sinkv b (fst ?os, ?st1) @ payloads p (Suc en) en'"
      "buffer st' (of_nat en') = None"
      "\<forall>k. buffer st' k = (if unat k < en' then None else buffer ?st1 k)"
      "same_ctl st' ?st1" "\<not> b \<longrightarrow> out' = fst ?os" "b \<longrightarrow> written (fout st') = written (fout ?st1)"
      by blast
    have s1: "sinkv b (fst ?os, ?st1) = sinkv b (out, st) @ v"
      using em(1) by (cases b) (simp_all add: sinkv_def)
    have sink: "sinkv b (out', st') = sinkv b (out, st) @ payloads p en en'"
      using r(5) s1 v r(2) by (simp add: payloads_cons[of en en'])
    have buf: "\<forall>k. buffer st' k = (if unat k < en' then None else buffer st k)"
    proof
      fix k
      show "buffer st' k = (if unat k < en' then None else buffer st k)"
      proof (cases "k = of_nat en")
        case True
        then have "unat k = en" using un by simp
        then show ?thesis using r(7) r(2) by simp
      next
        case False
        then show ?thesis using r(7) Suc.prems(2) by simp
      qed
    qed
    have ctl: "same_ctl st' st" using r(8) em(4) by (simp add: same_ctl_def)
    have o: "\<not> b \<longrightarrow> out' = out" using r(9) em(5) by simp
    have wr: "b \<longrightarrow> written (fout st') = written (fout st)" using r(10) em(6) by simp
    show ?thesis
      using step r(1) r(2) r(3) r(4) sink r(6) buf ctl o wr
      by (intro exI[of _ en'] exI[of _ out'] exI[of _ st']) simp
  qed
qed

lemma payloads_append: "a \<le> b \<Longrightarrow> b \<le> c \<Longrightarrow> payloads p a b @ payloads p b c = payloads p a c"
proof -
  assume ab: "a \<le> b" and "b \<le> c"
  then obtain d where c: "c = b + d" using le_Suc_ex by blast
  have "payloads p a b @ payloads p b (b + d) = payloads p a (b + d)"
  proof (induction d)
    case 0
    show ?case by simp
  next
    case (Suc d)
    have "payloads p a (Suc (b + d)) = payloads p a (b + d) @ p (of_nat (b + d))"
      using ab by (intro payloads_snoc) simp
    moreover have "payloads p b (Suc (b + d)) = payloads p b (b + d) @ p (of_nat (b + d))"
      by (intro payloads_snoc) simp
    ultimately show ?case using Suc by simp
  qed
  then show ?thesis by (simp add: c)
qed

lemma sinkv_written: "written (fout st') = written (fout st) \<Longrightarrow> sinkv b (out, st') = sinkv b (out, st)"
  by (simp add: sinkv_def)

lemma word_lt_of_nat: "en \<le> unat (N::u32) \<Longrightarrow> (k < (of_nat en :: u32)) = (unat k < en)"
  by (simp add: word_less_nat_alt le_unat_uoi)

lemma word_eq_of_nat: "en \<le> unat (N::u32) \<Longrightarrow> (k = (of_nat en :: u32)) = (unat k = en)"
  by (metis le_unat_uoi of_nat_unat ucast_id)

lemma finished_close_file [simp]: "finished (close_file st) = finished st"
  by (simp add: finished_def close_file_def)

lemma reorder_None: "reorder b seq payload out st = None \<longleftrightarrow> seq < expected st"
  by (auto simp: reorder_def split: prod.splits)

lemma reorder_SomeD: "reorder b seq payload out st = Some x \<Longrightarrow> \<not> seq < expected st"
  by (auto simp: reorder_def split: if_splits)

lemma deliver_single:
  assumes acc: "subscribe_all cfg \<or> sid \<in> set (subs cfg)"
    and one: "streams s = [] \<or> streams s = [(sid, stream_at sid (streams s))]"
  shows "\<exists>msgs. deliver cfg sid seq flags payload now g s =
      (\<not> seq < expected (fst (open_sink cfg sid g (stream_at sid (streams s)))) \<and>
       finished (snd (ingest (single_to_stdout cfg \<and> \<not> has_file (fst (open_sink cfg sid g (stream_at sid (streams s)))))
                  sid seq flags payload now (cout s, fst (open_sink cfg sid g (stream_at sid (streams s)))))) \<and>
       \<not> subscribe_all cfg \<and>
       all_done [(sid, snd (ingest (single_to_stdout cfg \<and> \<not> has_file (fst (open_sink cfg sid g (stream_at sid (streams s)))))
                  sid seq flags payload now (cout s, fst (open_sink cfg sid g (stream_at sid (streams s))))))] (subs cfg),
       s\<lparr>streams :=
               [(sid, snd (ingest (single_to_stdout cfg \<and> \<not> has_file (fst (open_sink cfg sid g (stream_at sid (streams s)))))
                  sid seq flags payload now (cout s, fst (open_sink cfg sid g (stream_at sid (streams s))))))],
             cout := fst (ingest (single_to_stdout cfg \<and> \<not> has_file (fst (open_sink cfg sid g (stream_at sid (streams s)))))
                  sid seq flags payload now (cout s, fst (open_sink cfg sid g (stream_at sid (streams s))))),
             cerr := cerr s @ msgs\<rparr>)"
proof -
  let ?st = "stream_at sid (streams s)"
  have ens: "ensure_stream sid (streams s) = [(sid, ?st)]"
    using one
  proof
    assume "streams s = []"
    then show ?thesis by (simp add: ensure_stream_def stream_at_def)
  next
    assume a: "streams s = [(sid, ?st)]"
    have "map_of (streams s) sid = Some ?st" by (subst a) simp
    then show ?thesis using a by (simp add: ensure_stream_def)
  qed
  have sa: "stream_at sid [(sid, ?st)] = ?st" by (simp add: stream_at_def)
  show ?thesis
    using acc
    unfolding deliver_def ens sa ingest_def Let_def
    by (auto split: option.splits prod.splits simp: reorder_None dest: reorder_SomeD)
qed

lemma open_sink_fields:
  "expected (fst (open_sink cfg sid g st)) = expected st"
  "buffer (fst (open_sink cfg sid g st)) = buffer st"
  "final_seen (fst (open_sink cfg sid g st)) = final_seen st"
  "final_seq (fst (open_sink cfg sid g st)) = final_seq st"
  "final_at (fst (open_sink cfg sid g st)) = final_at st"
  "written (fout (fst (open_sink cfg sid g st))) = written (fout st)"
  by (simp_all add: open_sink_def Let_def ofstream_open_def)

lemma open_sink_has_file: "has_file st \<Longrightarrow> fst (open_sink cfg sid g st) = st"
  by (simp add: open_sink_def)

lemma open_sink_stdout:
  "single_to_stdout cfg \<Longrightarrow> \<not> has_file st \<Longrightarrow>
   \<not> has_file (fst (open_sink cfg sid g st)) \<and> fout (fst (open_sink cfg sid g st)) = fout st"
  by (simp add: open_sink_def)

lemma open_sink_new_file:
  "\<not> single_to_stdout cfg \<Longrightarrow> \<not> has_file st \<Longrightarrow> \<not> is_open (fout st) \<Longrightarrow>
   has_file (fst (open_sink cfg sid True st)) \<and> is_open (fout (fst (open_sink cfg sid True st))) \<and>
   \<not> failed (fout (fst (open_sink cfg sid True st)))"
  by (simp add: open_sink_def Let_def ofstream_open_def)

lemma word_not_succ: "(k::u32) \<le> N \<Longrightarrow> 1 \<le> k \<Longrightarrow> k \<noteq> N + 1"
  by unat_arith

lemma word_of_nat_Suc_unat: "(of_nat (Suc (unat (N::u32))) :: u32) = N + 1"
  by simp

lemma mark_final_fields:
  "expected (fst (mark_final sid seq flags now st)) = expected st"
  "buffer (fst (mark_final sid seq flags now st)) = buffer st"
  "fout (fst (mark_final sid seq flags now st)) = fout st"
  "has_file (fst (mark_final sid seq flags now st)) = has_file st"
  by (simp_all add: mark_final_def)

lemma close_file_fields:
  "expected (close_file st) = expected st"
  "buffer (close_file st) = buffer st"
  "written (fout (close_file st)) = written (fout st)"
  "has_file (close_file st) = has_file st"
  "final_seen (close_file st) = final_seen st"
  "final_seq (close_file st) = final_seq st"
  by (simp_all add: close_file_def ofstream_close_def)

lemma stream_inv_atI:
  assumes "1 \<le> en" "en \<le> Suc (unat N)" "expected st = of_nat en"
    "sinkv (single_to_stdout cfg) (out, st) = payloads p 1 en"
    "buffer st (of_nat en) = None"
    "single_to_stdout cfg \<longrightarrow> \<not> has_file st"
    "\<not> single_to_stdout cfg \<longrightarrow> has_file st \<or> en = 1"
    "en \<le> unat N \<Longrightarrow> \<not> single_to_stdout cfg \<longrightarrow> has_file st = is_open (fout st) \<and> \<not> failed (fout st)"
    "en \<le> unat N \<Longrightarrow> \<forall>k v. buffer st k = Some v \<longrightarrow> v = p k \<and> en \<le> unat k \<and> k \<le> N"
    "en \<le> unat N \<Longrightarrow> \<forall>k\<in>D. unat k < en \<or> buffer st k \<noteq> None"
    "en \<le> unat N \<Longrightarrow> final_seen st \<longrightarrow> final_seq st = N"
  shows "stream_inv_at cfg p N D out st en"
  unfolding stream_inv_at_def using assms by auto

lemma ingest_step:
  fixes N :: u32
  assumes inv: "stream_inv_at cfg p N D out st en"
    and k1: "1 \<le> k" and kN: "k \<le> N" and fl: "(flags AND FLAG_FINAL \<noteq> 0) = (k = N)"
  shows "\<exists>en'. stream_inv_at cfg p N (insert k D)
      (fst (ingest (single_to_stdout cfg) sid k flags (p k) now (out, fst (open_sink cfg sid True st))))
      (snd (ingest (single_to_stdout cfg) sid k flags (p k) now (out, fst (open_sink cfg sid True st)))) en' \<and>
    (finished (snd (ingest (single_to_stdout cfg) sid k flags (p k) now (out, fst (open_sink cfg sid True st))))
       \<longrightarrow> en' = Suc (unat N))"
proof -
  let ?b = "single_to_stdout cfg"
  define st1 where "st1 = fst (open_sink cfg sid True st)"
  define R where "R = ingest ?b sid k flags (p k) now (out, st1)"
  from inv have en1: "1 \<le> en" and enN: "en \<le> Suc (unat N)" and ex: "expected st = of_nat en"
    and snk: "sinkv ?b (out, st) = payloads p 1 en" and bn: "buffer st (of_nat en) = None"
    and so: "?b \<longrightarrow> \<not> has_file st" and hf: "\<not> ?b \<and> 1 < en \<longrightarrow> has_file st"
    by (auto simp: stream_inv_at_def)
  have uk: "1 \<le> unat k" "unat k \<le> unat N"
    using k1 kN by (simp_all add: word_le_nat_alt)
  have f1: "expected st1 = of_nat en" "buffer st1 = buffer st" "final_seen st1 = final_seen st"
    "final_seq st1 = final_seq st" "written (fout st1) = written (fout st)"
    by (simp_all add: st1_def open_sink_fields ex)
  have snk1: "sinkv ?b (out, st1) = payloads p 1 en"
    using snk sinkv_written[OF f1(5)] by simp
  have so1: "?b \<longrightarrow> \<not> has_file st1"
    using so open_sink_stdout[of cfg st sid True] by (auto simp: st1_def)
  have goal: "\<exists>en'. stream_inv_at cfg p N (insert k D) (fst R) (snd R) en' \<and>
    (finished (snd R) \<longrightarrow> en' = Suc (unat N))"
  proof (cases "en \<le> unat N")
    case False
    then have en: "en = Suc (unat N)" using enN by simp
    then have "1 < en" using uk by simp
    with hf have "\<not> ?b \<longrightarrow> has_file st" by simp
    then have hf1: "\<not> ?b \<longrightarrow> has_file st1"
      by (auto simp: st1_def open_sink_has_file)
    have ne: "k \<noteq> expected st1"
      using word_not_succ[OF kN k1] f1 en by (simp add: add.commute)
    have flds: "expected (snd R) = expected st1 \<and> written (fout (snd R)) = written (fout st1) \<and>
      fst R = out \<and> has_file (snd R) = has_file st1 \<and> buffer (snd R) (expected st1) = None"
      unfolding R_def ingest_def reorder_def
      using ne bn f1
      by (auto simp: Let_def mark_final_fields close_file_fields)
    have "sinkv ?b (fst R, snd R) = sinkv ?b (out, st1)"
      using flds sinkv_written[of "snd R" st1 ?b out] by simp
    then have "stream_inv_at cfg p N (insert k D) (fst R) (snd R) en"
      using flds f1 snk1 so1 hf1 en1 en by (intro stream_inv_atI) simp_all
    then show ?thesis using en by blast
  next
    case True
    note prog = True
    from inv prog have rdy: "\<not> ?b \<longrightarrow> has_file st = is_open (fout st) \<and> \<not> failed (fout st)"
      and bf: "\<forall>k v. buffer st k = Some v \<longrightarrow> v = p k \<and> en \<le> unat k \<and> k \<le> N"
      and dd: "\<forall>k\<in>D. unat k < en \<or> buffer st k \<noteq> None"
      and fin: "final_seen st \<longrightarrow> final_seq st = N"
      by (auto simp: stream_inv_at_def)
    have w1: "writable ?b st1"
    proof (cases ?b)
      case True then show ?thesis by (simp add: writable_def)
    next
      case False
      show ?thesis
      proof (cases "has_file st")
        case True
        with rdy False show ?thesis by (simp add: writable_def st1_def open_sink_has_file)
      next
        case nf: False
        with rdy False have "\<not> is_open (fout st)" by simp
        from open_sink_new_file[OF False nf this, of sid] show ?thesis
          by (simp add: writable_def st1_def)
      qed
    qed
    have rdy1: "\<not> ?b \<longrightarrow> has_file st1 = is_open (fout st1) \<and> \<not> failed (fout st1)"
      using w1 by (auto simp: writable_def)
    have hf1: "\<not> ?b \<longrightarrow> has_file st1"
      using w1 by (auto simp: writable_def)
    have lt: "\<And>x. (x < (of_nat en :: u32)) = (unat x < en)"
      using prog by (rule word_lt_of_nat)
    have eq: "\<And>x. (x = (of_nat en :: u32)) = (unat x = en)"
      using prog by (rule word_eq_of_nat)
    have nofin: "\<And>s'. expected s' = of_nat en \<Longrightarrow> (final_seen s' \<longrightarrow> final_seq s' = N) \<Longrightarrow> \<not> finished s'"
      using prog by (auto simp: finished_def lt)
    consider (stale) "unat k < en" | (hit) "unat k = en" | (ahead) "en < unat k" by linarith
    then show ?thesis
    proof cases
      case stale
      then have R: "R = (out, st1)"
        by (simp add: R_def ingest_def reorder_def f1 lt)
      have "stream_inv_at cfg p N (insert k D) out st1 en"
      proof (rule stream_inv_atI)
        show "\<forall>x\<in>insert k D. unat x < en \<or> buffer st1 x \<noteq> None"
          using dd stale f1 by simp
      qed (use f1 snk1 so1 hf1 rdy1 en1 enN bn bf fin in simp_all)
      moreover have "\<not> finished st1"
        using nofin[of st1] f1 fin by simp
      ultimately show ?thesis using R by auto
    next
      case ahead
      then have kne: "k \<noteq> of_nat en" and nlt: "\<not> k < of_nat en"
        by (simp_all add: eq lt)
      define st2 where "st2 = (if buffer st1 k = None then st1\<lparr>buffer := (buffer st1)(k \<mapsto> p k)\<rparr> else st1)"
      define st3 where "st3 = fst (mark_final sid k flags now st2)"
      have ro: "reorder ?b k (p k) out st1 = Some (out, st2)"
        using kne nlt by (simp add: reorder_def f1 st2_def)
      have e3: "expected st3 = of_nat en"
        by (simp add: st3_def st2_def mark_final_fields f1)
      have fs3: "final_seen st3 \<longrightarrow> final_seq st3 = N"
        using fin fl f1 by (auto simp: st3_def st2_def mark_final_def)
      have nf3: "\<not> finished st3" using nofin[OF e3 fs3] .
      have R: "R = (out, st3)"
        using nf3 by (simp add: R_def ingest_def ro st3_def Let_def)
      have b3: "buffer st3 = (if buffer st k = None then (buffer st)(k \<mapsto> p k) else buffer st)"
        by (simp add: st3_def st2_def mark_final_fields f1)
      have fo3: "fout st3 = fout st1" "has_file st3 = has_file st1"
        by (simp_all add: st3_def st2_def mark_final_fields)
      have bf3: "\<forall>x v. buffer st3 x = Some v \<longrightarrow> v = p x \<and> en \<le> unat x \<and> x \<le> N"
        using bf ahead kN by (auto simp: b3 split: if_splits)
      have dd3: "\<forall>x\<in>insert k D. unat x < en \<or> buffer st3 x \<noteq> None"
        using dd by (auto simp: b3)
      have bn3: "buffer st3 (of_nat en) = None"
        using bn kne by (auto simp: b3)
      have "sinkv ?b (out, st3) = sinkv ?b (out, st1)"
        using fo3 by (simp add: sinkv_def)
      then have "stream_inv_at cfg p N (insert k D) out st3 en"
        using e3 fs3 bf3 dd3 bn3 fo3 snk1 so1 hf1 rdy1 en1 enN
        by (intro stream_inv_atI) simp_all
      then show ?thesis using R nf3 by auto
    next
      case hit
      then have keq: "k = of_nat en" by (simp add: eq)
      let ?os1 = "emit ?b (p k) (out, st1)"
      let ?st2 = "(snd ?os1)\<lparr>expected := expected (snd ?os1) + 1\<rparr>"
      note em = emit_writable[OF w1, of "p k" out]
      have ro: "reorder ?b k (p k) out st1 = Some (flush_buffered ?b (fst ?os1) ?st2)"
        using keq by (simp add: reorder_def f1 split: prod.splits)
      have w2: "writable ?b ?st2"
        using w1 em(4) by (auto simp: writable_def same_ctl_def)
      have e2: "expected ?st2 = of_nat (Suc en)"
        using em(2) f1 by simp
      have b2: "buffer ?st2 = buffer st"
        using em(3) f1 by simp
      have bf2: "\<forall>x v. buffer ?st2 x = Some v \<longrightarrow> v = p x \<and> Suc en \<le> unat x \<and> x \<le> N"
      proof (intro allI impI)
        fix x v assume "buffer ?st2 x = Some v"
        then have bx: "buffer st x = Some v" using b2 by simp
        with bf have *: "v = p x" "en \<le> unat x" "x \<le> N" by auto
        from bx bn have "x \<noteq> of_nat en" by auto
        then have "unat x \<noteq> en" by (simp add: eq)
        with * show "v = p x \<and> Suc en \<le> unat x \<and> x \<le> N" by simp
      qed
      have le2: "Suc en \<le> Suc (unat N)" using prog by simp
      from flush_buffered_spec[OF w2 e2 le2 bf2, of "fst ?os1"]
      obtain en' out' st' where r: "flush_buffered ?b (fst ?os1) ?st2 = (out', st')"
        "Suc en \<le> en'" "en' \<le> Suc (unat N)" "expected st' = of_nat en'"
        "sinkv ?b (out', st') = sinkv ?b (fst ?os1, ?st2) @ payloads p (Suc en) en'"
        "buffer st' (of_nat en') = None"
        "\<forall>x. buffer st' x = (if unat x < en' then None else buffer ?st2 x)"
        "same_ctl st' ?st2"
        by blast
      have s2: "sinkv ?b (fst ?os1, ?st2) = payloads p 1 (Suc en)"
      proof -
        have "sinkv ?b (fst ?os1, ?st2) = sinkv ?b ?os1" by (simp add: sinkv_def)
        also have "\<dots> = payloads p 1 en @ p k" using em(1) snk1 by simp
        also have "\<dots> = payloads p 1 (Suc en)" using en1 keq by (simp add: payloads_snoc)
        finally show ?thesis .
      qed
      have snk': "sinkv ?b (out', st') = payloads p 1 en'"
        using r(5) s2 r(2) en1 by (simp add: payloads_append)
      define st3 where "st3 = fst (mark_final sid k flags now st')"
      have Rv: "R = (out', if finished st3 then close_file st3 else st3)"
        by (simp add: R_def ingest_def ro r(1) st3_def Let_def)
      have ctl': "has_file st' = has_file st1" "is_open (fout st') = is_open (fout st1)"
        "failed (fout st') = failed (fout st1)" "final_seen st' = final_seen st" "final_seq st' = final_seq st"
        using r(8) em(4) f1 by (simp_all add: same_ctl_def)
      have e3: "expected st3 = of_nat en'" "buffer st3 = buffer st'" "fout st3 = fout st'"
        "has_file st3 = has_file st'"
        by (simp_all add: st3_def mark_final_fields r(4))
      have fs3: "final_seen st3 \<longrightarrow> final_seq st3 = N"
        using fin fl ctl' by (auto simp: st3_def mark_final_def)
      have b': "\<forall>x. buffer st' x = (if unat x < en' then None else buffer st x)"
        using r(7) b2 by simp
      show ?thesis
      proof (cases "en' \<le> unat N")
        case True
        have lt': "\<And>x. (x < (of_nat en' :: u32)) = (unat x < en')"
          using True by (rule word_lt_of_nat)
        have nf3: "\<not> finished st3"
          using fs3 e3 True by (auto simp: finished_def lt')
        then have R: "R = (out', st3)" using Rv by simp
        have bf3: "\<forall>x v. buffer st3 x = Some v \<longrightarrow> v = p x \<and> en' \<le> unat x \<and> x \<le> N"
          using bf b' e3 by (auto split: if_splits)
        have dd3: "\<forall>x\<in>insert k D. unat x < en' \<or> buffer st3 x \<noteq> None"
          using dd b' e3 hit r(2) by auto
        have "sinkv ?b (out', st3) = sinkv ?b (out', st')"
          using e3 by (simp add: sinkv_def)
        then have "stream_inv_at cfg p N (insert k D) out' st3 en'"
          using e3 fs3 bf3 dd3 r(6) r(2) r(3) snk' so1 hf1 rdy1 ctl'
          by (intro stream_inv_atI) simp_all
        then show ?thesis using R nf3 by auto
      next
        case False
        then have en': "en' = Suc (unat N)" using r(3) by simp
        have "sinkv ?b (fst R, snd R) = sinkv ?b (out', st')"
          using e3 Rv by (simp add: sinkv_def close_file_fields)
        moreover have "expected (snd R) = of_nat en'" "buffer (snd R) = buffer st'"
          "has_file (snd R) = has_file st'"
          using e3 Rv by (simp_all add: close_file_fields)
        ultimately have "stream_inv_at cfg p N (insert k D) (fst R) (snd R) en'"
          using r(6) r(2) r(3) snk' so1 hf1 ctl' en'
          by (intro stream_inv_atI) simp_all
        then show ?thesis using en' by blast
      qed
    qed
  qed
  then show ?thesis by (simp add: R_def st1_def)
qed

lemma stream_inv_at_done:
  "stream_inv_at cfg p N D out st (Suc (unat N)) \<Longrightarrow> stream_inv_at cfg p N D' out st (Suc (unat N))"
  by (simp add: stream_inv_at_def)

lemma step_frame_event:
  "length payload \<le> PAYLOAD_SIZE \<Longrightarrow>
   step cfg (frame_event sid (seq, flags, payload, now)) s = deliver cfg sid seq flags payload now True s"
  by (simp add: step_def frame_event_def on_datagram_def decode_wire)

lemma order_inv_init: "order_inv cfg sid p N {} receiver_init"
proof -
  have "stream_inv_at cfg p N {} [] new_stream 1"
    by (rule stream_inv_atI) (simp_all add: new_stream_def sinkv_def closed_ofstream_def)
  then show ?thesis
    by (auto simp: order_inv_def receiver_init_def stream_at_def)
qed

lemma step_order_inv:
  fixes N :: u32
  assumes acc: "subscribe_all cfg \<or> sid \<in> set (subs cfg)"
    and inv: "order_inv cfg sid p N D s"
    and k1: "1 \<le> k" and kN: "k \<le> N" and fl: "(flags AND FLAG_FINAL \<noteq> 0) = (k = N)"
    and len: "length (p k) \<le> PAYLOAD_SIZE"
  shows "order_inv cfg sid p N (insert k D) (snd (step cfg (frame_event sid (k, flags, p k, now)) s)) \<and>
    (fst (step cfg (frame_event sid (k, flags, p k, now)) s) \<longrightarrow>
       (\<forall>D'. order_inv cfg sid p N D' (snd (step cfg (frame_event sid (k, flags, p k, now)) s))))"
proof -
  let ?st = "stream_at sid (streams s)"
  let ?st1 = "fst (open_sink cfg sid True ?st)"
  let ?b = "single_to_stdout cfg"
  from inv have one: "streams s = [] \<or> streams s = [(sid, ?st)]"
    and "\<exists>en. stream_inv_at cfg p N D (cout s) ?st en"
    by (simp_all add: order_inv_def)
  then obtain en where si: "stream_inv_at cfg p N D (cout s) ?st en" by blast
  then have "?b \<longrightarrow> \<not> has_file ?st" by (simp add: stream_inv_at_def)
  then have b: "(?b \<and> \<not> has_file ?st1) = ?b"
    using open_sink_stdout[of cfg ?st sid True] by auto
  let ?R = "ingest ?b sid k flags (p k) now (cout s, ?st1)"
  define brk where "brk \<longleftrightarrow> \<not> k < expected ?st1 \<and> finished (snd ?R) \<and> \<not> subscribe_all cfg \<and>
    all_done [(sid, snd ?R)] (subs cfg)"
  from deliver_single[OF acc one, of k flags "p k" now True]
  obtain msgs where d: "deliver cfg sid k flags (p k) now True s =
      (brk, s\<lparr>streams := [(sid, snd ?R)], cout := fst ?R, cerr := cerr s @ msgs\<rparr>)"
    unfolding b brk_def by blast
  have bf: "brk \<longrightarrow> finished (snd ?R)" by (simp add: brk_def)
  from ingest_step[OF si k1 kN fl, of sid now]
  obtain en' where si': "stream_inv_at cfg p N (insert k D) (fst ?R) (snd ?R) en'"
    and fin: "finished (snd ?R) \<longrightarrow> en' = Suc (unat N)" by blast
  let ?s' = "s\<lparr>streams := [(sid, snd ?R)], cout := fst ?R, cerr := cerr s @ msgs\<rparr>"
  have sa: "stream_at sid (streams ?s') = snd ?R" by (simp add: stream_at_def)
  have st: "step cfg (frame_event sid (k, flags, p k, now)) s = (brk, ?s')"
    using d len by (simp add: step_frame_event)
  have 1: "order_inv cfg sid p N (insert k D) ?s'"
    unfolding order_inv_def sa using si' by auto
  have 2: "brk \<longrightarrow> (\<forall>D'. order_inv cfg sid p N D' ?s')"
  proof (intro impI allI)
    fix D' assume brk
    with bf fin have e: "en' = Suc (unat N)" by simp
    from si' have "stream_inv_at cfg p N D' (fst ?R) (snd ?R) en'"
      unfolding e by (rule stream_inv_at_done)
    then show "order_inv cfg sid p N D' ?s'"
      unfolding order_inv_def sa by auto
  qed
  show ?thesis unfolding st using 1 2 by simp
qed

lemma run_order_inv:
  fixes N :: u32
  assumes acc: "subscribe_all cfg \<or> sid \<in> set (subs cfg)"
    and fr: "\<forall>(seq, flags, payload, now)\<in>set frames. 1 \<le> seq \<and> seq \<le> N \<and> payload = p seq \<and>
        length payload \<le> PAYLOAD_SIZE \<and> ((flags AND FLAG_FINAL \<noteq> 0) = (seq = N))"
    and inv: "order_inv cfg sid p N D s"
  shows "order_inv cfg sid p N (D \<union> fst ` set frames) (snd (run_loop cfg (map (frame_event sid) frames) s))"
  using fr inv
proof (induction frames arbitrary: D s)
  case Nil
  then show ?case by simp
next
  case (Cons f frames)
  obtain k flags payload now where f: "f = (k, flags, payload, now)" by (cases f) auto
  from Cons.prems(1) f have v: "1 \<le> k" "k \<le> N" "payload = p k" "length (p k) \<le> PAYLOAD_SIZE"
    "(flags AND FLAG_FINAL \<noteq> 0) = (k = N)" by auto
  from Cons.prems(1) have rest: "\<forall>(seq, flags, payload, now)\<in>set frames. 1 \<le> seq \<and> seq \<le> N \<and> payload = p seq \<and>
        length payload \<le> PAYLOAD_SIZE \<and> ((flags AND FLAG_FINAL \<noteq> 0) = (seq = N))" by simp
  let ?r = "step cfg (frame_event sid (k, flags, p k, now)) s"
  note s = step_order_inv[OF acc Cons.prems(2) v(1) v(2) v(5) v(4), of now]
  obtain brk s' where r: "?r = (brk, s')" by (cases ?r)
  show ?case
  proof (cases brk)
    case True
    with s r have "order_inv cfg sid p N (D \<union> fst ` set (f # frames)) s'" by simp
    then show ?thesis using True r by (simp add: f v(3))
  next
    case False
    from s r have i: "order_inv cfg sid p N (insert k D) s'" by simp
    from Cons.IH[OF rest i] have "order_inv cfg sid p N (insert k D \<union> fst ` set frames)
      (snd (run_loop cfg (map (frame_event sid) frames) s'))" .
    then show ?thesis using False r by (simp add: f v(3))
  qed
qed

lemma order_inv_complete:
  fixes N :: u32
  assumes "order_inv cfg sid p N {1..N} s"
  shows "sink_bytes cfg sid s = payloads p 1 (Suc (unat N))"
    and "buffer (stream_at sid (streams s)) (expected (stream_at sid (streams s))) = None"
proof -
  let ?st = "stream_at sid (streams s)"
  from assms obtain en where si: "stream_inv_at cfg p N {1..N} (cout s) ?st en"
    by (auto simp: order_inv_def)
  have "\<not> en \<le> unat N"
  proof
    assume le: "en \<le> unat N"
    from si have en1: "1 \<le> en" by (simp add: stream_inv_at_def)
    have u: "unat (of_nat en :: u32) = en" using le by (rule le_unat_uoi)
    have "(of_nat en :: u32) \<in> {1..N}"
      using en1 le u by (simp add: word_le_nat_alt)
    moreover from si le have "\<forall>k\<in>{1..N}. unat k < en \<or> buffer ?st k \<noteq> None"
      by (simp add: stream_inv_at_def)
    ultimately have "unat (of_nat en :: u32) < en \<or> buffer ?st (of_nat en) \<noteq> None"
      by blast
    moreover from si have "buffer ?st (of_nat en) = None" by (simp add: stream_inv_at_def)
    ultimately show False using u by simp
  qed
  moreover from si have "en \<le> Suc (unat N)" by (simp add: stream_inv_at_def)
  ultimately have e: "en = Suc (unat N)" by simp
  have "sink_bytes cfg sid s = sinkv (single_to_stdout cfg) (cout s, ?st)"
    by (simp add: sink_bytes_def sinkv_def)
  moreover from si have "sinkv (single_to_stdout cfg) (cout s, ?st) = payloads p 1 en"
    by (simp add: stream_inv_at_def)
  ultimately show "sink_bytes cfg sid s = payloads p 1 (Suc (unat N))"
    by (simp add: e)
  from si show "buffer ?st (expected ?st) = None"
    by (simp add: stream_inv_at_def)
qed

lemma final_flush_idle: "buffer st (expected st) = None \<Longrightarrow> final_flush st = st"
  by (subst final_flush.simps) simp

lemma sink_bytes_post_loop_flush:
  assumes "streams s = [] \<or> streams s = [(sid, stream_at sid (streams s))]"
    and "buffer (stream_at sid (streams s)) (expected (stream_at sid (streams s))) = None"
  shows "sink_bytes cfg sid (post_loop_flush s) = sink_bytes cfg sid s"
proof -
  let ?st = "stream_at sid (streams s)"
  have c: "cout (post_loop_flush s) = cout s" by (simp add: post_loop_flush_def)
  have "written (fout (stream_at sid (streams (post_loop_flush s)))) = written (fout ?st)"
    using assms(1)
  proof
    assume "streams s = []"
    then show ?thesis by (simp add: post_loop_flush_def)
  next
    assume a: "streams s = [(sid, ?st)]"
    have "streams (post_loop_flush s) = [(sid, close_file (final_flush ?st))]"
      unfolding post_loop_flush_def by (subst a) simp
    then have "stream_at sid (streams (post_loop_flush s)) = close_file ?st"
      using assms(2) by (simp add: stream_at_def final_flush_idle)
    then show ?thesis by (simp add: close_file_fields)
  qed
  with c show ?thesis by (simp add: sink_bytes_def)
qed

lemma word_interval_1_3: "{1..3::u32} = {1, 2, 3}"
proof -
  have "(1 \<le> x \<and> x \<le> 3) = (x = 1 \<or> x = 2 \<or> x = 3)" for x :: u32
    by unat_arith
  then show ?thesis by (auto simp: set_eq_iff)
qed

text \<open>
  Claim C1. The receiver accepts stream \<open>sid\<close> and its output can be opened. The frames
  delivered, in any order and with any repetitions, have exactly the sequence numbers
  \<open>1..N\<close>; the frame with sequence \<open>k\<close> always carries the payload \<open>p k\<close> (of at most 1200
  bytes), and a frame is flagged final exactly when its sequence is \<open>N\<close>. Then the bytes
  in the stream's sink after the deliveries are the payloads \<open>p 1, ..., p N\<close> in this
  order, and they still are after the flush that follows the loop. The statement covers
  \<open>N = 2^32 - 1\<close>, where \<open>expected\<close> wraps to 0 after the last frame.
\<close>

theorem order_property:
  fixes N :: u32
  assumes acc: "subscribe_all cfg \<or> sid \<in> set (subs cfg)"
    and all: "fst ` set frames = {1..N}"
    and fr: "\<forall>(seq, flags, payload, now)\<in>set frames. payload = p seq \<and>
        length payload \<le> PAYLOAD_SIZE \<and> ((flags AND FLAG_FINAL \<noteq> 0) = (seq = N))"
  shows "sink_bytes cfg sid (snd (run_loop cfg (map (frame_event sid) frames) receiver_init))
      = concat (map (\<lambda>i. p (of_nat i)) [1..<Suc (unat N)]) \<and>
    sink_bytes cfg sid (post_loop_flush (snd (run_loop cfg (map (frame_event sid) frames) receiver_init)))
      = concat (map (\<lambda>i. p (of_nat i)) [1..<Suc (unat N)])"
proof -
  have fr': "\<forall>(seq, flags, payload, now)\<in>set frames. 1 \<le> seq \<and> seq \<le> N \<and> payload = p seq \<and>
        length payload \<le> PAYLOAD_SIZE \<and> ((flags AND FLAG_FINAL \<noteq> 0) = (seq = N))"
  proof (clarify)
    fix seq flags payload now assume m: "(seq, flags, payload, now) \<in> set frames"
    then have "seq \<in> fst ` set frames" by force
    with all have "1 \<le> seq \<and> seq \<le> N" by simp
    with fr m show "1 \<le> seq \<and> seq \<le> N \<and> payload = p seq \<and>
        length payload \<le> PAYLOAD_SIZE \<and> ((flags AND FLAG_FINAL \<noteq> 0) = (seq = N))" by auto
  qed
  let ?s = "snd (run_loop cfg (map (frame_event sid) frames) receiver_init)"
  from run_order_inv[OF acc fr' order_inv_init] all
  have inv: "order_inv cfg sid p N {1..N} ?s"
    by simp
  have 1: "sink_bytes cfg sid ?s = concat (map (\<lambda>i. p (of_nat i)) [1..<Suc (unat N)])"
    using order_inv_complete(1)[OF inv] by (simp add: payloads_def)
  from inv have "streams ?s = [] \<or> streams ?s = [(sid, stream_at sid (streams ?s))]"
    by (simp add: order_inv_def)
  from sink_bytes_post_loop_flush[OF this order_inv_complete(2)[OF inv]] 1
  show ?thesis by simp
qed

theorem order_property_witness:
  "sink_bytes cfg_one 42 (snd (run_loop cfg_one
      (map (frame_event 42)
        [(3, 1, [99], 5), (1, 0, [97], 6), (3, 1, [99], 7), (2, 0, [98], 8), (1, 0, [97], 9)])
      receiver_init)) = [97, 98, 99]"
proof -
  let ?p = "\<lambda>k::u32. if k = 1 then [97] else if k = 2 then [98] else [99::byte]"
  let ?frames = "[(3, 1, [99], 5), (1, 0, [97], 6), (3, 1, [99], 7), (2, 0, [98], 8), (1, 0, [97], 9)]
    :: (u32 \<times> u32 \<times> byte list \<times> int) list"
  have acc: "subscribe_all cfg_one \<or> 42 \<in> set (subs cfg_one)" by (simp add: cfg_one_def)
  have all: "fst ` set ?frames = {1..3::u32}" unfolding word_interval_1_3 by auto
  have fr: "\<forall>(seq, flags, payload, now)\<in>set ?frames. payload = ?p seq \<and>
        length payload \<le> PAYLOAD_SIZE \<and> ((flags AND FLAG_FINAL \<noteq> 0) = (seq = 3))"
    by (simp add: PAYLOAD_SIZE_def FLAG_FINAL_def)
  have "[1..<Suc (unat (3::u32))] = [1, 2, 3]" by (simp add: upt_conv_Cons)
  with order_property[OF acc all fr]
  show ?thesis by simp
qed


subsection \<open>The sender\<close>

lemma send_loop_full_chunk:
  assumes "\<not> interrupted env i" "\<not> sendto_fails env i" "\<not> eofbit f" "\<not> failbit f"
    "PAYLOAD_SIZE \<le> length (remaining f)"
  shows "send_loop env sid i f seq acts =
    send_loop env sid (Suc i) (f\<lparr>remaining := drop PAYLOAD_SIZE (remaining f)\<rparr>) (seq + 1)
      (acts @ [SendTo (wire sid seq 0 (take PAYLOAD_SIZE (remaining f)))])"
  using assms
  by (subst send_loop.simps) (auto simp: ifstream_read_def PAYLOAD_SIZE_def)

lemma send_loop_at_end:
  assumes "\<not> eofbit f" "\<not> failbit f" "remaining f = []"
  shows "send_loop env sid i f seq acts = (Suc i, seq, acts)"
  using assms
  by (subst send_loop.simps) (simp add: ifstream_read_def PAYLOAD_SIZE_def)

lemma sender_main_exact_multiple:
  assumes len: "length file = 3 * PAYLOAD_SIZE"
    and quiet: "\<forall>k. \<not> interrupted env k" "\<forall>i. \<not> sendto_fails env i"
  shows "sender_main env sid file =
    [SendTo (wire sid 1 0 (take 1200 file)),
     SendTo (wire sid 2 0 (take 1200 (drop 1200 file))),
     SendTo (wire sid 3 0 (drop 2400 file)),
     SendTo (wire sid 4 FLAG_FINAL []), SleepMs 200,
     SendTo (wire sid 4 FLAG_FINAL []), SleepMs 200,
     SendTo (wire sid 4 FLAG_FINAL []), SleepMs 200]"
proof -
  have "send_loop env sid 0 (ifstream_of file) 1 [] =
    (4, 4, [SendTo (wire sid 1 0 (take 1200 file)),
     SendTo (wire sid 2 0 (take 1200 (drop 1200 file))),
     SendTo (wire sid 3 0 (drop 2400 file))])"
    using len quiet
    by (simp add: send_loop_full_chunk send_loop_at_end ifstream_of_def PAYLOAD_SIZE_def
        eval_nat_numeral(3)[symmetric])
  then show ?thesis
    using quiet by (simp add: sender_main_def numeral_3_eq_3)
qed

lemma word_interval_1_4: "{1..4::u32} = {1, 2, 3, 4}"
proof -
  have "(1 \<le> x \<and> x \<le> 4) = (x = 1 \<or> x = 2 \<or> x = 3 \<or> x = 4)" for x :: u32
    by unat_arith
  then show ?thesis by (auto simp: set_eq_iff)
qed

lemma reassemble_exact_multiple:
  assumes len: "length file = 3 * PAYLOAD_SIZE"
    and acc: "subscribe_all cfg \<or> sid \<in> set (subs cfg)"
  shows "sink_bytes cfg sid (snd (run_loop cfg (map (\<lambda>d. Datagram d now True)
      [wire sid 1 0 (take 1200 file), wire sid 2 0 (take 1200 (drop 1200 file)),
       wire sid 3 0 (drop 2400 file), wire sid 4 FLAG_FINAL [], wire sid 4 FLAG_FINAL [],
       wire sid 4 FLAG_FINAL []]) receiver_init)) = file"
proof -
  let ?c1 = "take 1200 file" and ?c2 = "take 1200 (drop 1200 file)" and ?c3 = "drop 2400 file"
  let ?p = "\<lambda>k::u32. if k = 1 then ?c1 else if k = 2 then ?c2 else if k = 3 then ?c3 else []"
  let ?frames = "[(1, 0, ?c1, now), (2, 0, ?c2, now), (3, 0, ?c3, now),
    (4, FLAG_FINAL, [], now), (4, FLAG_FINAL, [], now), (4, FLAG_FINAL, [], now)]
    :: (u32 \<times> u32 \<times> byte list \<times> int) list"
  have ev: "map (\<lambda>d. Datagram d now True)
      [wire sid 1 0 ?c1, wire sid 2 0 ?c2, wire sid 3 0 ?c3, wire sid 4 FLAG_FINAL [],
       wire sid 4 FLAG_FINAL [], wire sid 4 FLAG_FINAL []] = map (frame_event sid) ?frames"
    by (simp add: frame_event_def)
  have fr: "\<forall>(seq, flags, payload, now)\<in>set ?frames. 1 \<le> seq \<and> seq \<le> 4 \<and> payload = ?p seq \<and>
        length payload \<le> PAYLOAD_SIZE \<and> ((flags AND FLAG_FINAL \<noteq> 0) = (seq = 4))"
    using len by (simp add: PAYLOAD_SIZE_def FLAG_FINAL_def)
  have all: "{} \<union> fst ` set ?frames = {1..4::u32}"
    unfolding word_interval_1_4 by auto
  from run_order_inv[OF acc fr order_inv_init]
  have "order_inv cfg sid ?p 4 {1..4}
    (snd (run_loop cfg (map (frame_event sid) ?frames) receiver_init))"
    unfolding all .
  from order_inv_complete(1)[OF this]
  have "sink_bytes cfg sid (snd (run_loop cfg (map (frame_event sid) ?frames) receiver_init))
    = ?c1 @ ?c2 @ ?c3"
    by (simp add: payloads_def upt_conv_Cons)
  moreover have "?c1 @ ?c2 @ ?c3 = file"
  proof -
    have "?c2 @ ?c3 = drop 1200 file"
      using append_take_drop_id[of 1200 "drop 1200 file"] by simp
    then show ?thesis by simp
  qed
  ultimately show ?thesis unfolding ev by simp
qed

text \<open>
  Claim C4. A file of exactly \<open>3 * 1200\<close> bytes, sent without interruption or send error:
  the sender puts on the wire the frames 1, 2 and 3, each with 1200 payload bytes and
  flags 0, and then sequence 4 three times, only as a final marker without payload (each
  followed by a sleep of 200 ms). A receiver that accepts the stream and gets these
  datagrams in this order, none lost, ends with the 3600 bytes of the file in the sink.
\<close>

theorem chunking_round_trip:
  assumes len: "length file = 3 * PAYLOAD_SIZE"
    and quiet: "\<forall>k. \<not> interrupted env k" "\<forall>i. \<not> sendto_fails env i"
    and acc: "subscribe_all cfg \<or> sid \<in> set (subs cfg)"
  shows "sender_main env sid file =
      [SendTo (wire sid 1 0 (take 1200 file)),
       SendTo (wire sid 2 0 (take 1200 (drop 1200 file))),
       SendTo (wire sid 3 0 (drop 2400 file)),
       SendTo (wire sid 4 FLAG_FINAL []), SleepMs 200,
       SendTo (wire sid 4 FLAG_FINAL []), SleepMs 200,
       SendTo (wire sid 4 FLAG_FINAL []), SleepMs 200] \<and>
    length (take 1200 file) = 1200 \<and> length (take 1200 (drop 1200 file)) = 1200 \<and>
    length (drop 2400 file) = 1200 \<and>
    sink_bytes cfg sid (snd (run_loop cfg
      (map (\<lambda>d. Datagram d now True) (datagrams (sender_main env sid file))) receiver_init)) = file"
proof -
  note sm = sender_main_exact_multiple[OF len quiet, of sid]
  have "sink_bytes cfg sid (snd (run_loop cfg
      (map (\<lambda>d. Datagram d now True) (datagrams (sender_main env sid file))) receiver_init)) = file"
    unfolding sm using reassemble_exact_multiple[OF len acc, of now] by simp
  with sm len show ?thesis by (simp add: PAYLOAD_SIZE_def)
qed

theorem chunking_round_trip_witness:
  "sender_main quiet_env 42 (replicate 3600 7) =
      [SendTo (wire 42 1 0 (replicate 1200 7)),
       SendTo (wire 42 2 0 (replicate 1200 7)),
       SendTo (wire 42 3 0 (replicate 1200 7)),
       SendTo (wire 42 4 1 []), SleepMs 200,
       SendTo (wire 42 4 1 []), SleepMs 200,
       SendTo (wire 42 4 1 []), SleepMs 200] \<and>
   sink_bytes cfg_one 42 (snd (run_loop cfg_one
      (map (\<lambda>d. Datagram d 0 True) (datagrams (sender_main quiet_env 42 (replicate 3600 7))))
      receiver_init)) = replicate 3600 7"
proof -
  have len: "length (replicate 3600 (7::byte)) = 3 * PAYLOAD_SIZE" by (simp add: PAYLOAD_SIZE_def)
  have q: "\<forall>k. \<not> interrupted quiet_env k" "\<forall>i. \<not> sendto_fails quiet_env i"
    by (simp_all add: quiet_env_def)
  have acc: "subscribe_all cfg_one \<or> 42 \<in> set (subs cfg_one)" by (simp add: cfg_one_def)
  note rt = chunking_round_trip[OF len q acc, of 0]
  from rt have a: "sender_main quiet_env 42 (replicate 3600 7) =
      [SendTo (wire 42 1 0 (replicate 1200 7)),
       SendTo (wire 42 2 0 (replicate 1200 7)),
       SendTo (wire 42 3 0 (replicate 1200 7)),
       SendTo (wire 42 4 1 []), SleepMs 200,
       SendTo (wire 42 4 1 []), SleepMs 200,
       SendTo (wire 42 4 1 []), SleepMs 200]"
    by (simp add: FLAG_FINAL_def)
  from rt have b: "sink_bytes cfg_one 42 (snd (run_loop cfg_one
      (map (\<lambda>d. Datagram d 0 True) (datagrams (sender_main quiet_env 42 (replicate 3600 7))))
      receiver_init)) = replicate 3600 7"
    by (elim conjE)
  from a b show ?thesis by (rule conjI)
qed


lemma ntohl_seq_wire: "ntohl_at (drop 4 (wire sid seq flags chunk)) = seq"
  by (simp add: wire_def length_htonl_bytes ntohl_at_htonl_bytes)

lemma send_loop_spec:
  "send_loop env sid i f seq acts = (r, seq', acts') \<Longrightarrow>
   \<exists>ds. acts' = acts @ map SendTo ds \<and> seq' = seq + of_nat (length ds) \<and>
        map (\<lambda>d. ntohl_at (drop 4 d)) ds = map (\<lambda>j. seq + of_nat j) [0..<length ds]"
proof (induction env sid i f seq acts arbitrary: r seq' acts' rule: send_loop.induct)
  case (1 env sid i infile seq acts)
  obtain chunk infile' where rd: "(chunk, infile') = ifstream_read PAYLOAD_SIZE infile"
    by (metis surj_pair)
  define is_final where "is_final = (length chunk < PAYLOAD_SIZE \<or> eofbit infile')"
  define pkt where "pkt = wire sid seq (if is_final then FLAG_FINAL else 0) chunk"
  have unf: "send_loop env sid i infile seq acts =
     (if interrupted env i then (Suc i, seq, acts)
      else if length chunk \<le> 0 then (Suc i, seq, acts)
      else if sendto_fails env i then (Suc i, seq, acts)
      else if is_final then (Suc i, seq + 1, acts @ [SendTo pkt])
      else send_loop env sid (Suc i) infile' (seq + 1) (acts @ [SendTo pkt]))"
    by (subst send_loop.simps) (simp add: rd[symmetric] Let_def is_final_def pkt_def)
  have one: "\<exists>ds. acts @ [SendTo pkt] = acts @ map SendTo ds \<and> seq + 1 = seq + of_nat (length ds) \<and>
        map (\<lambda>d. ntohl_at (drop 4 d)) ds = map (\<lambda>j. seq + of_nat j) [0..<length ds]"
    by (rule exI[of _ "[pkt]"]) (simp add: pkt_def ntohl_seq_wire)
  have none: "\<exists>ds. acts = acts @ map SendTo ds \<and> seq = seq + of_nat (length ds) \<and>
        map (\<lambda>d. ntohl_at (drop 4 d)) ds = map (\<lambda>j. seq + of_nat j) [0..<length ds]"
    by (rule exI[of _ "[]"]) simp
  show ?case
  proof (cases "\<not> interrupted env i \<and> \<not> length chunk \<le> 0 \<and> \<not> sendto_fails env i \<and> \<not> is_final")
    case False
    with "1.prems" unf one none show ?thesis by (auto split: if_splits)
  next
    case True
    with "1.prems" unf have rec: "send_loop env sid (Suc i) infile' (seq + 1) (acts @ [SendTo pkt]) = (r, seq', acts')"
      by simp
    from True have c: "\<not> interrupted env i" "\<not> length chunk \<le> 0" "\<not> sendto_fails env i" "\<not> is_final"
      by simp_all
    from "1.IH"[OF c(1) rd c(2) is_final_def pkt_def c(3) c(4) rec]
    obtain ds where ds: "acts' = (acts @ [SendTo pkt]) @ map SendTo ds"
      "seq' = seq + 1 + of_nat (length ds)"
      "map (\<lambda>d. ntohl_at (drop 4 d)) ds = map (\<lambda>j. seq + 1 + of_nat j) [0..<length ds]"
      by blast
    have "map (\<lambda>j. seq + of_nat j) [0..<length (pkt # ds)]
      = seq # map (\<lambda>j. seq + 1 + of_nat j) [0..<length ds]"
      by (simp add: upt_conv_Cons map_Suc_upt[symmetric] del: upt_Suc)
    with ds show ?thesis
      by (intro exI[of _ "pkt # ds"]) (simp add: pkt_def ntohl_seq_wire add.assoc add.commute)
  qed
qed

text \<open>
  Claim C5, as the code has it. Whatever ends the main loop (end of file, a final chunk,
  a failed \<open>sendto\<close> or an interruption), the frames sent in the loop carry the sequence
  numbers \<open>1..n\<close>, and afterwards the sender transmits the final marker, a frame with flags
  1 and no payload that carries the next unused sequence number \<open>n + 1\<close>: once if
  \<open>g_interrupted\<close> is set after the loop, and then exactly three times, each followed by
  a sleep of 200 ms.
\<close>

theorem final_marker_retransmission:
  "case send_loop env sid 0 (ifstream_of file) 1 [] of (reads, seq, acts) \<Rightarrow>
     sender_main env sid file =
       acts @ (if interrupted env reads then [SendTo (wire sid seq FLAG_FINAL [])] else [])
       @ [SendTo (wire sid seq FLAG_FINAL []), SleepMs 200,
          SendTo (wire sid seq FLAG_FINAL []), SleepMs 200,
          SendTo (wire sid seq FLAG_FINAL []), SleepMs 200] \<and>
     acts = map SendTo (datagrams acts) \<and>
     map (\<lambda>d. ntohl_at (drop 4 d)) (datagrams acts) = map of_nat [1..<Suc (length acts)] \<and>
     seq = of_nat (Suc (length acts)) \<and>
     decode (wire sid seq FLAG_FINAL []) = Some (sid, seq, 1, [])"
proof -
  obtain reads seq acts where sl: "send_loop env sid 0 (ifstream_of file) 1 [] = (reads, seq, acts)"
    by (metis surj_pair)
  from send_loop_spec[OF sl] obtain ds where ds: "acts = map SendTo ds" "seq = 1 + of_nat (length ds)"
      "map (\<lambda>d. ntohl_at (drop 4 d)) ds = map (\<lambda>j. 1 + of_nat j) [0..<length ds]"
    by auto
  have dg: "datagrams (map SendTo ds) = ds" for ds
    by (induction ds) simp_all
  have m: "map (\<lambda>j. (1::u32) + of_nat j) [0..<n] = map of_nat [1..<Suc n]" for n
    by (induction n) simp_all
  show ?thesis
    unfolding sl
    using ds m[of "length ds"]
    by (simp add: sender_main_def sl dg numeral_3_eq_3 decode_wire FLAG_FINAL_def)
qed

text \<open>
  Claim C5 as stated fails on the sequence number: for a file of three bytes the loop
  sends the final-flagged data chunk with sequence 1 (``increment for the final marker
  consistency'' then advances \<open>seq\<close>), and the three retransmitted markers carry sequence 2.
\<close>

theorem final_marker_has_next_sequence:
  "sender_main quiet_env 7 [1, 2, 3] =
    [SendTo (wire 7 1 1 [1, 2, 3]),
     SendTo (wire 7 2 1 []), SleepMs 200,
     SendTo (wire 7 2 1 []), SleepMs 200,
     SendTo (wire 7 2 1 []), SleepMs 200]"
  by (simp add: sender_main_def send_loop.simps ifstream_of_def ifstream_read_def quiet_env_def
      PAYLOAD_SIZE_def FLAG_FINAL_def numeral_3_eq_3)


subsection \<open>The flush after the receive loop\<close>

lemma ofstream_write_Nil [simp]: "ofstream_write [] f = f"
  by (simp add: ofstream_write_def)

lemma final_flush_as_flush_buffered:
  "has_file st \<Longrightarrow> flush_buffered False out st = (out, final_flush st)"
proof (induction st rule: final_flush.induct)
  case (1 st)
  show ?case
  proof (cases "buffer st (expected st)")
    case None
    then show ?thesis
      by (subst flush_buffered.simps, subst final_flush.simps) simp
  next
    case (Some p)
    let ?st' = "(if has_file st then st\<lparr>fout := ofstream_write p (fout st)\<rparr> else st)
               \<lparr>buffer := (buffer st)(expected st := None), expected := expected st + 1\<rparr>"
    have e: "emit False p (out, st) = (out, st\<lparr>fout := ofstream_write p (fout st)\<rparr>)"
      using "1.prems" by (cases "p = []") (simp_all add: emit_def)
    have "has_file ?st'" using "1.prems" by simp
    from "1.IH"[OF Some this] have "flush_buffered False out ?st' = (out, final_flush ?st')" .
    then show ?thesis
      using Some "1.prems"
      by (subst flush_buffered.simps, subst final_flush.simps) (simp add: e)
  qed
qed

lemma flush_buffered_head_free: "head_free (snd (flush_buffered b out st))"
proof (induction b out st rule: flush_buffered.induct)
  case (1 to_stdout out st)
  show ?case
  proof (cases "buffer st (expected st)")
    case None
    then show ?thesis by (subst flush_buffered.simps) (simp add: head_free_def)
  next
    case (Some p)
    from "1.IH"[OF Some] show ?thesis
      using Some by (subst flush_buffered.simps) simp
  qed
qed

lemma emit_keeps: "expected (snd (emit b p (out, st))) = expected st"
  "buffer (snd (emit b p (out, st))) = buffer st"
  by (simp_all add: emit_def)

lemma reorder_head_free:
  "head_free st \<Longrightarrow> reorder b seq payload out st = Some (out', st') \<Longrightarrow> head_free st'"
  apply (auto simp: reorder_def split: if_splits prod.splits)
    apply (metis flush_buffered_head_free snd_conv)
   apply (auto simp: head_free_def)
  done

lemma list_all_update:
  "list_all (\<lambda>(k, v). P v) al \<Longrightarrow> P v \<Longrightarrow> list_all (\<lambda>(k, v). P v) (AList.update k v al)"
  by (induction al) (auto)

lemma list_all_insert_stream:
  "list_all (\<lambda>(k, v). P v) al \<Longrightarrow> P v \<Longrightarrow> list_all (\<lambda>(k, v). P v) (insert_stream k v al)"
  by (induction al) (auto)

lemma list_all_map_of:
  "list_all (\<lambda>(k, v). P v) al \<Longrightarrow> map_of al k = Some v \<Longrightarrow> P v"
  by (induction al) (auto split: if_splits)

lemma head_free_new_stream: "head_free new_stream"
  by (simp add: head_free_def new_stream_def)

lemma ensure_stream_heads:
  "list_all (\<lambda>(k, v). head_free v) al \<Longrightarrow> list_all (\<lambda>(k, v). head_free v) (ensure_stream sid al)"
  by (auto simp: ensure_stream_def list_all_insert_stream head_free_new_stream split: option.splits)

lemma stream_at_head:
  "list_all (\<lambda>(k, v). head_free v) al \<Longrightarrow> head_free (stream_at sid al)"
  by (auto simp: stream_at_def head_free_new_stream split: option.splits dest: list_all_map_of)

lemma open_sink_head: "head_free st \<Longrightarrow> head_free (fst (open_sink cfg sid g st))"
  by (simp add: head_free_def open_sink_fields)

lemma mark_final_head: "head_free st \<Longrightarrow> head_free (fst (mark_final sid seq flags now st))"
  by (simp add: head_free_def mark_final_fields)

lemma close_file_head: "head_free st \<Longrightarrow> head_free (close_file st)"
  by (simp add: head_free_def close_file_fields)

lemma check_timeouts_heads:
  "list_all (\<lambda>(k, v). head_free v) al \<Longrightarrow>
   list_all (\<lambda>(k, v). head_free v) (fst (check_timeouts tmo now al))"
  by (induction al) (auto simp: head_free_def split: prod.splits)

lemma deliver_heads_free:
  assumes "heads_free s"
  shows "heads_free (snd (deliver cfg sid seq flags payload now g s))"
proof (cases "\<not> subscribe_all cfg \<and> sid \<notin> set (subs cfg)")
  case True
  with assms show ?thesis by (simp add: deliver_def)
next
  case False
  then have nf: "(\<not> subscribe_all cfg \<and> sid \<notin> set (subs cfg)) = False" by simp
  let ?strs = "ensure_stream sid (streams s)"
  from assms have a: "list_all (\<lambda>(k, v). head_free v) ?strs"
    by (simp add: heads_free_def ensure_stream_heads)
  obtain st1 msgs1 where os: "open_sink cfg sid g (stream_at sid ?strs) = (st1, msgs1)"
    by force
  from a have "head_free (fst (open_sink cfg sid g (stream_at sid ?strs)))"
    by (simp add: stream_at_head open_sink_head)
  then have h1: "head_free st1" by (simp add: os)
  let ?b = "single_to_stdout cfg \<and> length ?strs = 1 \<and> has_file st1 = False"
  show ?thesis
  proof (cases "reorder ?b seq payload (cout s) st1")
    case None
    then show ?thesis
      using a h1 by (simp add: deliver_def nf os heads_free_def list_all_update)
  next
    case (Some r)
    obtain out2 st2 where r: "r = (out2, st2)" by force
    from reorder_head_free[OF h1 Some[unfolded r]] have h2: "head_free st2" .
    obtain st3 msgs3 where mf: "mark_final sid seq flags now st2 = (st3, msgs3)" by force
    from mark_final_head[OF h2, of sid seq flags now] have h3: "head_free st3" by (simp add: mf)
    show ?thesis
      using a h3 Some
      by (cases "finished st3")
        (simp_all add: deliver_def nf os r mf Let_def heads_free_def list_all_update close_file_head)
  qed
qed

lemma step_heads_free: "heads_free s \<Longrightarrow> heads_free (snd (step cfg ev s))"
proof (cases ev)
  case (Datagram d now g)
  assume "heads_free s"
  then show ?thesis
    by (simp add: Datagram step_def on_datagram_def deliver_heads_free split: option.splits)
next
  case (RecvTimeout now)
  assume "heads_free s"
  then have "list_all (\<lambda>(k, v). head_free v) (fst (check_timeouts (timeout cfg) now (streams s)))"
    unfolding heads_free_def by (rule check_timeouts_heads)
  then show ?thesis
    by (cases "check_timeouts (timeout cfg) now (streams s)")
      (simp add: RecvTimeout step_def heads_free_def)
next
  case RecvError
  assume "heads_free s"
  then show ?thesis by (simp add: RecvError step_def heads_free_def)
qed

lemma run_loop_heads_free: "heads_free s \<Longrightarrow> heads_free (snd (run_loop cfg evs s))"
proof (induction evs arbitrary: s)
  case Nil
  then show ?case by simp
next
  case (Cons ev evs)
  from step_heads_free[OF Cons.prems, of cfg ev] Cons.IH[of "snd (step cfg ev s)"]
  show ?case by (auto split: prod.splits)
qed

lemma post_loop_flush_heads_free:
  assumes "heads_free s"
  shows "post_loop_flush s = s\<lparr>streams := map (\<lambda>(sid, st). (sid, close_file st)) (streams s)\<rparr>"
proof -
  have m: "list_all (\<lambda>(k, v). head_free v) al \<Longrightarrow>
      map (\<lambda>(sid, st). (sid, close_file (final_flush st))) al
      = map (\<lambda>(sid, st). (sid, close_file st)) al" for al
    by (induction al) (auto simp: head_free_def final_flush_idle)
  from assms have "list_all (\<lambda>(k, v). head_free v) (streams s)" by (simp add: heads_free_def)
  from m[OF this] show ?thesis unfolding post_loop_flush_def by (rule arg_cong)
qed

text \<open>
  Claim C6, as the code has it. The loop that follows the receive loop treats a stream
  that has a file exactly as the drain inside the receive loop does (the contiguous
  entries from \<open>expected\<close> are written to the file), then the file is closed; it writes
  nothing to standard output and prints no report. Moreover, after any sequence of
  returns of \<open>recv\<close> no stream has an entry at \<open>expected\<close>, so this flush never has a byte
  to write: all it changes is that open files are closed, and the entries still buffered
  are dropped without a report.
\<close>

theorem post_loop_flush_only_closes:
  "post_loop_flush (snd (run_loop cfg evs receiver_init)) =
     (snd (run_loop cfg evs receiver_init))
       \<lparr>streams := map (\<lambda>(sid, st). (sid, close_file st))
                     (streams (snd (run_loop cfg evs receiver_init)))\<rparr> \<and>
   (has_file st \<longrightarrow> flush_buffered False out st = (out, final_flush st))"
proof -
  have "heads_free receiver_init" by (simp add: heads_free_def receiver_init_def)
  then have "heads_free (snd (run_loop cfg evs receiver_init))" by (rule run_loop_heads_free)
  then show ?thesis
    by (simp add: post_loop_flush_heads_free final_flush_as_flush_buffered)
qed

theorem post_loop_flush_only_closes_witness:
  "has_file \<lparr>expected = 2, buffer = [2 \<mapsto> [98]], final_seen = False, final_seq = 0, final_at = 0,
       fout = \<lparr>is_open = True, failed = False, written = [97]\<rparr>, has_file = True\<rparr> \<and>
   flush_buffered False []
     \<lparr>expected = 2, buffer = [2 \<mapsto> [98]], final_seen = False, final_seq = 0, final_at = 0,
       fout = \<lparr>is_open = True, failed = False, written = [97]\<rparr>, has_file = True\<rparr>
   = ([], final_flush
     \<lparr>expected = 2, buffer = [2 \<mapsto> [98]], final_seen = False, final_seq = 0, final_at = 0,
       fout = \<lparr>is_open = True, failed = False, written = [97]\<rparr>, has_file = True\<rparr>) \<and>
   post_loop_flush (snd (run_loop cfg_one
       [Datagram (wire 42 2 1 [98]) 0 True, Datagram (wire 42 1 0 [97]) 1 True] receiver_init))
   = \<lparr>streams = [(42, \<lparr>expected = 3, buffer = Map.empty, final_seen = True, final_seq = 2,
         final_at = 0, fout = \<lparr>is_open = False, failed = False, written = [97, 98]\<rparr>,
         has_file = True\<rparr>)],
      cout = [], cerr = [Opened 42, FinalMarkerSeen 42 2, StreamFinished 42 3 2]\<rparr>"
proof -
  let ?S = "\<lparr>expected = 2, buffer = [2 \<mapsto> [98]], final_seen = False, final_seq = 0, final_at = 0,
       fout = \<lparr>is_open = True, failed = False, written = [97]\<rparr>, has_file = True\<rparr>"
  let ?evs = "[Datagram (wire 42 2 1 [98]) 0 True, Datagram (wire 42 1 0 [97]) 1 True]"
  note t = post_loop_flush_only_closes[of cfg_one ?evs ?S "[]"]
  have hf: "has_file ?S" by simp
  from t hf have a: "flush_buffered False [] ?S = ([], final_flush ?S)" by blast
  have r: "snd (run_loop cfg_one ?evs receiver_init) =
     \<lparr>streams = [(42, \<lparr>expected = 3, buffer = Map.empty, final_seen = True, final_seq = 2,
         final_at = 0, fout = \<lparr>is_open = False, failed = False, written = [97, 98]\<rparr>,
         has_file = True\<rparr>)],
      cout = [], cerr = [Opened 42, FinalMarkerSeen 42 2, StreamFinished 42 3 2]\<rparr>"
    by (simp add: run_defs cfg_one_def)
  from t have "post_loop_flush (snd (run_loop cfg_one ?evs receiver_init)) =
     (snd (run_loop cfg_one ?evs receiver_init))
       \<lparr>streams := map (\<lambda>(sid, st). (sid, close_file st))
                     (streams (snd (run_loop cfg_one ?evs receiver_init)))\<rparr>"
    by (elim conjE)
  then have b: "post_loop_flush (snd (run_loop cfg_one ?evs receiver_init)) =
     \<lparr>streams = [(42, \<lparr>expected = 3, buffer = Map.empty, final_seen = True, final_seq = 2,
         final_at = 0, fout = \<lparr>is_open = False, failed = False, written = [97, 98]\<rparr>,
         has_file = True\<rparr>)],
      cout = [], cerr = [Opened 42, FinalMarkerSeen 42 2, StreamFinished 42 3 2]\<rparr>"
    unfolding r by (simp add: close_file_def)
  from hf a b show ?thesis by (intro conjI)
qed

text \<open>
  Claim C6 as stated fails on the report: frame 1 and frame 3 of stream 42 arrive, then
  \<open>recv\<close> fails. At \<open>return 0\<close> frame 3 is still in the buffer, out of reach of \<open>expected\<close>;
  its byte is in no sink, and standard error holds the line about the opened file and
  the \<open>recv\<close> error only.
\<close>

theorem buffered_frame_dropped_unreported:
  "receiver_main cfg_all
     [Datagram (wire 42 1 0 [97]) 0 True, Datagram (wire 42 3 0 [99]) 1 True, RecvError]
   = Some \<lparr>streams = [(42, \<lparr>expected = 2, buffer = [3 \<mapsto> [99]], final_seen = False,
         final_seq = 0, final_at = 0,
         fout = \<lparr>is_open = False, failed = False, written = [97]\<rparr>, has_file = True\<rparr>)],
      cout = [], cerr = [Opened 42, RecvFailed]\<rparr>"
  by (simp add: receiver_main_def post_loop_flush_def final_flush.simps run_defs cfg_all_def)


subsection \<open>Duplicate frames\<close>

lemma word_lt_succ: "(x::u32) \<noteq> - 1 \<Longrightarrow> x < x + 1"
  using inc_less_eq_self_iff_eq[of x] by simp

lemma word_succ_le: "(x::u32) \<noteq> - 1 \<Longrightarrow> (x + 1 \<le> k) = (x < k)"
  by (simp add: inc_less_eq_iff)

lemma emit_fields:
  "expected (snd (emit b p (out, st))) = expected st"
  "buffer (snd (emit b p (out, st))) = buffer st"
  "final_seen (snd (emit b p (out, st))) = final_seen st"
  "final_seq (snd (emit b p (out, st))) = final_seq st"
  "has_file (snd (emit b p (out, st))) = has_file st"
  by (simp_all add: emit_def)

lemma flush_buffered_nowrap:
  assumes "no_max_key st"
  shows "expected st \<le> expected (snd (flush_buffered b out st)) \<and>
    (\<forall>key. buffer (snd (flush_buffered b out st)) key =
       (if expected st \<le> key \<and> key < expected (snd (flush_buffered b out st)) then None
        else buffer st key)) \<and>
    final_seen (snd (flush_buffered b out st)) = final_seen st \<and>
    final_seq (snd (flush_buffered b out st)) = final_seq st \<and>
    has_file (snd (flush_buffered b out st)) = has_file st"
  using assms
proof (induction b out st rule: flush_buffered.induct)
  case (1 to_stdout out st)
  show ?case
  proof (cases "buffer st (expected st)")
    case None
    then show ?thesis
      by (subst (1 2 3 4 5 6) flush_buffered.simps) (auto)
  next
    case (Some p)
    let ?st1 = "(snd (emit to_stdout p (out, st)))
               \<lparr>buffer := (buffer st)(expected st := None), expected := expected st + 1\<rparr>"
    let ?r = "flush_buffered to_stdout (fst (emit to_stdout p (out, st))) ?st1"
    have unf: "flush_buffered to_stdout out st = ?r"
      using Some by (subst flush_buffered.simps) simp
    from Some "1.prems" have ne: "expected st \<noteq> - 1"
      by (auto simp: no_max_key_def)
    have nm1: "no_max_key ?st1" using "1.prems" by (simp add: no_max_key_def)
    from "1.IH"[OF Some nm1]
    have ih: "expected st + 1 \<le> expected (snd ?r)"
      "\<And>key. buffer (snd ?r) key =
         (if expected st + 1 \<le> key \<and> key < expected (snd ?r) then None
          else ((buffer st)(expected st := None)) key)"
      "final_seen (snd ?r) = final_seen st" "final_seq (snd ?r) = final_seq st"
      "has_file (snd ?r) = has_file st"
      by (simp_all add: emit_fields)
    from ih(1) have lt: "expected st < expected (snd ?r)"
      by (simp add: word_succ_le[OF ne])
    have "buffer (snd ?r) key =
       (if expected st \<le> key \<and> key < expected (snd ?r) then None else buffer st key)" for key
    proof (cases "key = expected st")
      case True
      then show ?thesis using ih(2)[of key] lt by simp
    next
      case False
      then have "(expected st + 1 \<le> key) = (expected st \<le> key)"
        by (auto simp: word_succ_le[OF ne])
      then show ?thesis using ih(2)[of key] False by simp
    qed
    then show ?thesis
      unfolding unf using lt ih(3,4,5) by simp
  qed
qed

lemma reorder_nowrap:
  assumes nm: "no_max_key st" and hf: "head_free st" and ne: "seq \<noteq> - 1"
    and ro: "reorder b seq payload out st = Some (out', st')"
  shows "expected st \<le> expected st'"
    and "seq < expected st' \<or> buffer st' seq \<noteq> None"
    and "k < expected st \<or> buffer st k \<noteq> None \<Longrightarrow> k < expected st' \<or> buffer st' k \<noteq> None"
    and "no_max_key st'" and "head_free st'"
    and "final_seen st' = final_seen st" and "final_seq st' = final_seq st"
    and "has_file st' = has_file st"
proof -
  from ro have ns: "\<not> seq < expected st" by (rule reorder_SomeD)
  have "expected st \<le> expected st' \<and> (seq < expected st' \<or> buffer st' seq \<noteq> None) \<and>
    (k < expected st \<or> buffer st k \<noteq> None \<longrightarrow> k < expected st' \<or> buffer st' k \<noteq> None) \<and>
    no_max_key st' \<and> final_seen st' = final_seen st \<and> final_seq st' = final_seq st \<and>
    has_file st' = has_file st"
  proof (cases "seq = expected st")
    case True
    let ?os1 = "emit b payload (out, st)"
    let ?st2 = "(snd ?os1)\<lparr>expected := expected (snd ?os1) + 1\<rparr>"
    from ro True have r: "flush_buffered b (fst ?os1) ?st2 = (out', st')"
      by (simp add: reorder_def split: prod.splits)
    have nm2: "no_max_key ?st2" using nm by (simp add: no_max_key_def emit_fields)
    from flush_buffered_nowrap[OF nm2, of b "fst ?os1"] r
    have f: "expected st + 1 \<le> expected st'"
      "\<And>key. buffer st' key = (if expected st + 1 \<le> key \<and> key < expected st' then None else buffer st key)"
      "final_seen st' = final_seen st" "final_seq st' = final_seq st" "has_file st' = has_file st"
      by (simp_all add: emit_fields)
    from ne True have ne': "expected st \<noteq> - 1" by simp
    from f(1) have lt: "expected st < expected st'" by (simp add: word_succ_le[OF ne'])
    have "no_max_key st'" using nm f(2)[of "- 1"] by (simp add: no_max_key_def)
    moreover have "k < expected st \<or> buffer st k \<noteq> None \<longrightarrow> k < expected st' \<or> buffer st' k \<noteq> None"
      using lt f(2)[of k] by (auto split: if_splits)
    ultimately show ?thesis using lt f True by simp
  next
    case False
    with ro ns have st': "st' = (if buffer st seq = None then st\<lparr>buffer := (buffer st)(seq \<mapsto> payload)\<rparr> else st)"
      by (simp add: reorder_def)
    show ?thesis using nm ne by (auto simp: st' no_max_key_def)
  qed
  moreover have "head_free st'" using reorder_head_free[OF hf ro] .
  ultimately show "expected st \<le> expected st'"
    and "seq < expected st' \<or> buffer st' seq \<noteq> None"
    and "k < expected st \<or> buffer st k \<noteq> None \<Longrightarrow> k < expected st' \<or> buffer st' k \<noteq> None"
    and "no_max_key st'" and "head_free st'"
    and "final_seen st' = final_seen st" and "final_seq st' = final_seq st"
    and "has_file st' = has_file st"
    by simp_all
qed

lemma ingest_stale:
  "seq < expected st \<Longrightarrow> ingest b sid seq flags payload now (out, st) = (out, st)"
  by (simp add: ingest_def reorder_def)

lemma ingest_base:
  assumes nm: "no_max_key st" and hf: "head_free st" and ne: "seq \<noteq> - 1"
  shows "no_max_key (snd (ingest b sid seq flags payload now (out, st))) \<and>
    head_free (snd (ingest b sid seq flags payload now (out, st))) \<and>
    has_file (snd (ingest b sid seq flags payload now (out, st))) = has_file st"
proof (cases "reorder b seq payload out st")
  case None
  then show ?thesis using nm hf by (simp add: ingest_def)
next
  case (Some r)
  obtain out2 st2 where r: "r = (out2, st2)" by force
  note ro = reorder_nowrap[OF nm hf ne Some[unfolded r]]
  show ?thesis
    using ro(4,5,8)
    by (simp add: ingest_def Some r Let_def no_max_key_def head_free_def
        mark_final_fields close_file_fields)
qed

lemma ingest_seen_keep:
  assumes nm: "no_max_key st" and hf: "head_free st" and ne: "seq \<noteq> - 1"
    and si: "seen_inv k fl st"
    and one: "fl AND FLAG_FINAL \<noteq> 0 \<longrightarrow> flags AND FLAG_FINAL \<noteq> 0 \<longrightarrow> seq = k"
  shows "seen_inv k fl (snd (ingest b sid seq flags payload now (out, st)))"
proof (cases "reorder b seq payload out st")
  case None
  then show ?thesis using si by (simp add: ingest_def)
next
  case (Some r)
  obtain out2 st2 where r: "r = (out2, st2)" by force
  note ro = reorder_nowrap[OF nm hf ne Some[unfolded r]]
  let ?st3 = "fst (mark_final sid seq flags now st2)"
  have e3: "expected ?st3 = expected st2" "buffer ?st3 = buffer st2"
    by (simp_all add: mark_final_fields)
  from si have j: "k < expected st \<or> buffer st k \<noteq> None" by (simp add: seen_inv_def)
  have j3: "k < expected ?st3 \<or> buffer ?st3 k \<noteq> None"
    using ro(3)[of k, OF j] by (simp add: e3)
  have l3: "fl AND FLAG_FINAL \<noteq> 0 \<longrightarrow> k < expected ?st3 \<or> (final_seen ?st3 \<and> final_seq ?st3 = k)"
  proof
    assume f: "fl AND FLAG_FINAL \<noteq> 0"
    with si have "k < expected st \<or> (final_seen st \<and> final_seq st = k)" by (simp add: seen_inv_def)
    then show "k < expected ?st3 \<or> (final_seen ?st3 \<and> final_seq ?st3 = k)"
    proof
      assume "k < expected st"
      with ro(1) have "k < expected st2" by simp
      then show ?thesis by (simp add: e3)
    next
      assume "final_seen st \<and> final_seq st = k"
      then show ?thesis using ro(6,7) one f by (simp add: mark_final_def)
    qed
  qed
  have "seen_inv k fl ?st3" using j3 l3 by (simp add: seen_inv_def)
  then have "seen_inv k fl (if finished ?st3 then close_file ?st3 else ?st3)"
    by (simp add: seen_inv_def close_file_fields)
  then show ?thesis by (simp add: ingest_def Some r Let_def)
qed

lemma ingest_seen_new:
  assumes nm: "no_max_key st" and hf: "head_free st" and ne: "k \<noteq> - 1"
  shows "seen_inv k fl (snd (ingest b sid k fl payload now (out, st)))"
proof (cases "reorder b k payload out st")
  case None
  then have "k < expected st" by (simp add: reorder_None)
  with None show ?thesis by (simp add: ingest_def seen_inv_def)
next
  case (Some r)
  obtain out2 st2 where r: "r = (out2, st2)" by force
  note ro = reorder_nowrap[OF nm hf ne Some[unfolded r]]
  let ?st3 = "fst (mark_final sid k fl now st2)"
  have "seen_inv k fl ?st3"
    using ro(2) by (simp add: seen_inv_def mark_final_def)
  then have "seen_inv k fl (if finished ?st3 then close_file ?st3 else ?st3)"
    by (simp add: seen_inv_def close_file_fields)
  then show ?thesis by (simp add: ingest_def Some r Let_def)
qed

lemma has_file_False_id: "\<not> has_file st \<Longrightarrow> st\<lparr>has_file := False\<rparr> = st"
  by (cases st) simp

lemma close_file_idem: "close_file (close_file st) = close_file st"
  by (simp add: close_file_def ofstream_close_def)

lemma open_sink_dd:
  assumes "dd_state cfg sid s"
  shows "dd_stream (fst (open_sink cfg sid True (stream_at sid (streams s))))"
    and "has_file (fst (open_sink cfg sid True (stream_at sid (streams s)))) = (\<not> single_to_stdout cfg)"
    and "streams s \<noteq> [] \<Longrightarrow> fst (open_sink cfg sid True (stream_at sid (streams s))) = stream_at sid (streams s)"
proof -
  let ?st = "stream_at sid (streams s)"
  let ?st1 = "fst (open_sink cfg sid True ?st)"
  from assms have d: "dd_stream ?st" by (simp add: dd_state_def)
  have ne: "streams s \<noteq> [] \<Longrightarrow> ?st1 = ?st"
  proof -
    assume "streams s \<noteq> []"
    with assms have h: "has_file ?st = (\<not> single_to_stdout cfg)" by (simp add: dd_state_def)
    show "?st1 = ?st"
    proof (cases "single_to_stdout cfg")
      case True
      with h have "\<not> has_file ?st" by simp
      then show ?thesis using True by (simp add: open_sink_def has_file_False_id)
    next
      case False
      with h show ?thesis by (simp add: open_sink_has_file)
    qed
  qed
  then show "streams s \<noteq> [] \<Longrightarrow> ?st1 = ?st" .
  show "has_file ?st1 = (\<not> single_to_stdout cfg)"
  proof (cases "streams s = []")
    case True
    then show ?thesis
      by (simp add: stream_at_def open_sink_def new_stream_def ofstream_open_def closed_ofstream_def Let_def)
  next
    case False
    with ne assms show ?thesis by (simp add: dd_state_def)
  qed
  show "dd_stream ?st1"
  proof (cases "streams s = []")
    case True
    then show ?thesis
      by (simp add: stream_at_def open_sink_def new_stream_def ofstream_open_def closed_ofstream_def
          Let_def dd_stream_def no_max_key_def head_free_def finished_def)
  next
    case False
    with ne d show ?thesis by simp
  qed
qed

lemma step_frame_event_any:
  "step cfg (frame_event sid (seq, flags, payload, now)) s
     = deliver cfg sid seq flags (take PAYLOAD_SIZE payload) now True s"
  by (simp add: step_def frame_event_def on_datagram_def decode_wire)

lemma ingest_dd_stream:
  assumes "dd_stream st" and "seq \<noteq> - 1"
  shows "dd_stream (snd (ingest b sid seq flags payload now (out, st)))"
    and "has_file (snd (ingest b sid seq flags payload now (out, st))) = has_file st"
proof -
  from assms have nm: "no_max_key st" and hf: "head_free st" and cf: "finished st \<longrightarrow> close_file st = st"
    by (simp_all add: dd_stream_def)
  note b = ingest_base[OF nm hf assms(2), of b sid flags payload now out]
  have "finished (snd (ingest b sid seq flags payload now (out, st))) \<longrightarrow>
    close_file (snd (ingest b sid seq flags payload now (out, st))) = snd (ingest b sid seq flags payload now (out, st))"
    using cf by (auto simp: ingest_def Let_def close_file_idem split: option.splits)
  with b show "dd_stream (snd (ingest b sid seq flags payload now (out, st)))"
    by (simp add: dd_stream_def)
  from b show "has_file (snd (ingest b sid seq flags payload now (out, st))) = has_file st" by simp
qed

lemma step_single:
  assumes acc: "subscribe_all cfg \<or> sid \<in> set (subs cfg)"
    and dd: "dd_state cfg sid s"
  shows "\<exists>msgs. step cfg (frame_event sid (seq, flags, payload, now)) s =
    (\<not> seq < expected (fst (open_sink cfg sid True (stream_at sid (streams s)))) \<and>
       finished (snd (ingest (single_to_stdout cfg) sid seq flags (take PAYLOAD_SIZE payload) now
          (cout s, fst (open_sink cfg sid True (stream_at sid (streams s)))))) \<and>
       \<not> subscribe_all cfg \<and>
       all_done [(sid, snd (ingest (single_to_stdout cfg) sid seq flags (take PAYLOAD_SIZE payload) now
          (cout s, fst (open_sink cfg sid True (stream_at sid (streams s))))))] (subs cfg),
     s\<lparr>streams := [(sid, snd (ingest (single_to_stdout cfg) sid seq flags (take PAYLOAD_SIZE payload) now
          (cout s, fst (open_sink cfg sid True (stream_at sid (streams s))))))],
       cout := fst (ingest (single_to_stdout cfg) sid seq flags (take PAYLOAD_SIZE payload) now
          (cout s, fst (open_sink cfg sid True (stream_at sid (streams s))))),
       cerr := cerr s @ msgs\<rparr>)"
proof -
  from dd have one: "streams s = [] \<or> streams s = [(sid, stream_at sid (streams s))]"
    by (simp add: dd_state_def)
  have b: "(single_to_stdout cfg \<and> \<not> has_file (fst (open_sink cfg sid True (stream_at sid (streams s)))))
    = single_to_stdout cfg"
    using open_sink_dd(2)[OF dd] by auto
  from deliver_single[OF acc one, of seq flags "take PAYLOAD_SIZE payload" now True]
  show ?thesis unfolding step_frame_event_any b .
qed

lemma step_after_frame:
  assumes acc: "subscribe_all cfg \<or> sid \<in> set (subs cfg)"
    and dd: "dd_state cfg sid s"
  shows "\<exists>msgs. step cfg (frame_event sid f) s =
    (\<not> fst f < expected (stream_at sid (streams s)) \<and>
       finished (snd (after_frame cfg sid f s)) \<and> \<not> subscribe_all cfg \<and>
       all_done [(sid, snd (after_frame cfg sid f s))] (subs cfg),
     s\<lparr>streams := [(sid, snd (after_frame cfg sid f s))],
       cout := fst (after_frame cfg sid f s), cerr := cerr s @ msgs\<rparr>)"
proof -
  obtain seq flags payload now where f: "f = (seq, flags, payload, now)" by (cases f) auto
  from step_single[OF acc dd, of seq flags payload now]
  show ?thesis by (simp add: f after_frame_def open_sink_fields)
qed

lemma stream_at_single [simp]: "stream_at sid [(sid, st)] = st"
  by (simp add: stream_at_def)

lemma after_frame_dd:
  assumes dd: "dd_state cfg sid s" and ne: "fst f \<noteq> - 1"
  shows "dd_stream (snd (after_frame cfg sid f s))"
    and "has_file (snd (after_frame cfg sid f s)) = (\<not> single_to_stdout cfg)"
proof -
  obtain seq flags payload now where f: "f = (seq, flags, payload, now)" by (cases f) auto
  from ne f have ne': "seq \<noteq> - 1" by simp
  note i = ingest_dd_stream[OF open_sink_dd(1)[OF dd] ne', of "single_to_stdout cfg" sid flags
      "take PAYLOAD_SIZE payload" now "cout s"]
  from i(1) show "dd_stream (snd (after_frame cfg sid f s))" by (simp add: f after_frame_def)
  from i(2) open_sink_dd(2)[OF dd]
  show "has_file (snd (after_frame cfg sid f s)) = (\<not> single_to_stdout cfg)"
    by (simp add: f after_frame_def)
qed

lemma step_dd_state:
  assumes acc: "subscribe_all cfg \<or> sid \<in> set (subs cfg)"
    and dd: "dd_state cfg sid s" and ne: "fst f \<noteq> - 1"
  shows "dd_state cfg sid (snd (step cfg (frame_event sid f) s))"
    and "streams (snd (step cfg (frame_event sid f) s)) = [(sid, snd (after_frame cfg sid f s))]"
    and "cout (snd (step cfg (frame_event sid f) s)) = fst (after_frame cfg sid f s)"
proof -
  from step_after_frame[OF acc dd, of f] obtain msgs brk where
    st: "step cfg (frame_event sid f) s = (brk, s\<lparr>streams := [(sid, snd (after_frame cfg sid f s))],
       cout := fst (after_frame cfg sid f s), cerr := cerr s @ msgs\<rparr>)" by blast
  show "streams (snd (step cfg (frame_event sid f) s)) = [(sid, snd (after_frame cfg sid f s))]"
    by (simp add: st)
  show "cout (snd (step cfg (frame_event sid f) s)) = fst (after_frame cfg sid f s)"
    by (simp add: st)
  show "dd_state cfg sid (snd (step cfg (frame_event sid f) s))"
    using after_frame_dd[OF dd ne] by (simp add: st dd_state_def)
qed

lemma step_dd_full:
  assumes acc: "subscribe_all cfg \<or> sid \<in> set (subs cfg)"
    and dd: "dd_full cfg sid s" and ne: "fst f \<noteq> - 1"
    and nb: "\<not> fst (step cfg (frame_event sid f) s)"
  shows "dd_full cfg sid (snd (step cfg (frame_event sid f) s))"
proof -
  from dd have ds: "dd_state cfg sid s" by (simp add: dd_full_def)
  let ?st = "stream_at sid (streams s)"
  let ?R = "after_frame cfg sid f s"
  from step_after_frame[OF acc ds, of f] obtain msgs where
    st: "step cfg (frame_event sid f) s =
      (\<not> fst f < expected ?st \<and> finished (snd ?R) \<and> \<not> subscribe_all cfg \<and>
         all_done [(sid, snd ?R)] (subs cfg),
       s\<lparr>streams := [(sid, snd ?R)], cout := fst ?R, cerr := cerr s @ msgs\<rparr>)" by blast
  have nd: "\<not> (finished (snd ?R) \<and> \<not> subscribe_all cfg \<and> all_done [(sid, snd ?R)] (subs cfg))"
  proof (cases "fst f < expected ?st")
    case False
    with nb st show ?thesis by simp
  next
    case True
    obtain seq flags payload now where f: "f = (seq, flags, payload, now)" by (cases f) auto
    from True have R: "snd ?R = fst (open_sink cfg sid True ?st)"
      by (simp add: f after_frame_def ingest_stale open_sink_fields)
    show ?thesis
    proof (cases "streams s = []")
      case True
      then show ?thesis
        by (simp add: R stream_at_def finished_def open_sink_fields new_stream_def)
    next
      case False
      with ds have s: "streams s = [(sid, ?st)]" by (simp add: dd_state_def)
      from open_sink_dd(3)[OF ds False] have "snd ?R = ?st" by (simp add: R)
      moreover from dd have "\<not> (finished ?st \<and> \<not> subscribe_all cfg \<and> all_done (streams s) (subs cfg))"
        by (simp add: dd_full_def)
      ultimately show ?thesis using s by simp
    qed
  qed
  from step_dd_state[OF acc ds ne] nd show ?thesis
    by (simp add: dd_full_def)
qed

lemma seen_inv_open_sink:
  "seen_inv k fl (fst (open_sink cfg sid g st)) = seen_inv k fl st"
  by (simp add: seen_inv_def open_sink_fields)

lemma dd_streamD: "dd_stream st \<Longrightarrow> no_max_key st" "dd_stream st \<Longrightarrow> head_free st"
  by (simp_all add: dd_stream_def)

lemma after_frame_seen_keep:
  assumes dd: "dd_state cfg sid s" and ne: "fst f \<noteq> - 1"
    and si: "seen_inv k fl (stream_at sid (streams s))"
    and one: "fl AND FLAG_FINAL \<noteq> 0 \<longrightarrow> fst (snd f) AND FLAG_FINAL \<noteq> 0 \<longrightarrow> fst f = k"
  shows "seen_inv k fl (snd (after_frame cfg sid f s))"
proof -
  obtain seq flags payload now where f: "f = (seq, flags, payload, now)" by (cases f) auto
  note d1 = open_sink_dd(1)[OF dd]
  from ingest_seen_keep[OF dd_streamD[OF d1], of seq k fl flags "single_to_stdout cfg" sid
      "take PAYLOAD_SIZE payload" now "cout s"] ne si one
  show ?thesis by (simp add: f after_frame_def seen_inv_open_sink)
qed

lemma after_frame_seen_new:
  assumes dd: "dd_state cfg sid s" and ne: "k \<noteq> - 1"
  shows "seen_inv k fl (snd (after_frame cfg sid (k, fl, pl, t) s))"
proof -
  note d1 = open_sink_dd(1)[OF dd]
  from ingest_seen_new[OF dd_streamD[OF d1] ne, of fl "single_to_stdout cfg" sid
      "take PAYLOAD_SIZE pl" t "cout s"]
  show ?thesis by (simp add: after_frame_def)
qed

lemma finished_final_at [simp]: "finished (st\<lparr>final_at := v\<rparr>) = finished st"
  by (simp add: finished_def)

lemma close_file_final_at: "close_file (st\<lparr>final_at := v\<rparr>) = (close_file st)\<lparr>final_at := v\<rparr>"
  by (simp add: close_file_def)

lemma all_done_final_at [simp]:
  "all_done [(sid, st\<lparr>final_at := v\<rparr>)] sl = all_done [(sid, st)] sl"
  by (induction sl) (simp_all)

lemma emit_final_at:
  "emit b p (out, st\<lparr>final_at := v\<rparr>)
     = (fst (emit b p (out, st)), (snd (emit b p (out, st)))\<lparr>final_at := v\<rparr>)"
  by (simp add: emit_def)

lemma final_at_update_outwards:
  "st\<lparr>final_at := v, buffer := bf, expected := e\<rparr> = st\<lparr>buffer := bf, expected := e, final_at := v\<rparr>"
  "st\<lparr>final_at := v, expected := e\<rparr> = st\<lparr>expected := e, final_at := v\<rparr>"
  "st\<lparr>final_at := v, buffer := bf\<rparr> = st\<lparr>buffer := bf, final_at := v\<rparr>"
  by simp_all

lemma flush_buffered_final_at:
  "flush_buffered b out (st\<lparr>final_at := v\<rparr>)
     = (fst (flush_buffered b out st), (snd (flush_buffered b out st))\<lparr>final_at := v\<rparr>)"
proof (induction b out st rule: flush_buffered.induct)
  case (1 to_stdout out st)
  show ?case
  proof (cases "buffer st (expected st)")
    case None
    then show ?thesis by (subst (1 2 3) flush_buffered.simps) simp
  next
    case (Some p)
    have l: "flush_buffered to_stdout out (st\<lparr>final_at := v\<rparr>)
      = flush_buffered to_stdout (fst (emit to_stdout p (out, st)))
          ((snd (emit to_stdout p (out, st)))
             \<lparr>buffer := (buffer st)(expected st := None), expected := expected st + 1\<rparr>
             \<lparr>final_at := v\<rparr>)"
      by (subst flush_buffered.simps)
        (simp add: Some emit_final_at, simp only: final_at_update_outwards)
    have r: "flush_buffered to_stdout out st
      = flush_buffered to_stdout (fst (emit to_stdout p (out, st)))
          ((snd (emit to_stdout p (out, st)))
             \<lparr>buffer := (buffer st)(expected st := None), expected := expected st + 1\<rparr>)"
      by (subst flush_buffered.simps) (simp add: Some)
    show ?thesis
      unfolding l r by (rule "1.IH"[OF Some])
  qed
qed

lemma reorder_final_at:
  "reorder b seq p out (st\<lparr>final_at := v\<rparr>)
     = map_option (\<lambda>(o', x). (o', x\<lparr>final_at := v\<rparr>)) (reorder b seq p out st)"
proof -
  have e: "\<And>x. flush_buffered b out (x\<lparr>expected := expected x + 1, final_at := v\<rparr>)
    = (fst (flush_buffered b out (x\<lparr>expected := expected x + 1\<rparr>)),
       (snd (flush_buffered b out (x\<lparr>expected := expected x + 1\<rparr>)))\<lparr>final_at := v\<rparr>)" for out
    by (rule flush_buffered_final_at)
  show ?thesis
    by (cases "emit b p (out, st)")
      (auto simp: reorder_def emit_final_at final_at_update_outwards e case_prod_beta)
qed

lemma mark_final_final_at:
  "\<exists>v'. fst (mark_final sid seq fl now (st\<lparr>final_at := v\<rparr>))
     = (fst (mark_final sid seq fl now st))\<lparr>final_at := v'\<rparr>"
  by (cases "fl AND FLAG_FINAL \<noteq> 0") (auto simp: mark_final_def intro: exI[of _ now] exI[of _ v])

lemma ingest_final_at:
  "\<exists>v'. ingest b sid seq fl p now (out, st\<lparr>final_at := v\<rparr>)
     = (fst (ingest b sid seq fl p now (out, st)),
        (snd (ingest b sid seq fl p now (out, st)))\<lparr>final_at := v'\<rparr>)"
proof (cases "reorder b seq p out st")
  case None
  then show ?thesis by (intro exI[of _ v]) (simp add: ingest_def reorder_final_at)
next
  case (Some r)
  obtain out2 st2 where r: "r = (out2, st2)" by force
  from mark_final_final_at[where sid=sid and seq=seq and fl=fl and now=now and st=st2 and v=v] obtain v' where
    m: "fst (mark_final sid seq fl now (st2\<lparr>final_at := v\<rparr>))
      = (fst (mark_final sid seq fl now st2))\<lparr>final_at := v'\<rparr>" by blast
  show ?thesis
    by (intro exI[of _ v'])
      (simp add: ingest_def reorder_final_at Some r m Let_def close_file_final_at)
qed

lemma open_sink_final_at:
  "fst (open_sink cfg sid g (st\<lparr>final_at := v\<rparr>)) = (fst (open_sink cfg sid g st))\<lparr>final_at := v\<rparr>"
  by (simp add: open_sink_def Let_def)

lemma sim_step:
  assumes acc: "subscribe_all cfg \<or> sid \<in> set (subs cfg)"
    and rel: "same_but_final_at sid s s'"
  shows "fst (step cfg (frame_event sid f) s') = fst (step cfg (frame_event sid f) s) \<and>
    same_but_final_at sid (snd (step cfg (frame_event sid f) s)) (snd (step cfg (frame_event sid f) s'))"
proof -
  obtain seq flags payload now where f: "f = (seq, flags, payload, now)" by (cases f) auto
  from rel obtain st v where c: "cout s' = cout s" and s: "streams s = [(sid, st)]"
    and s': "streams s' = [(sid, st\<lparr>final_at := v\<rparr>)]"
    by (auto simp: same_but_final_at_def)
  let ?p = "take PAYLOAD_SIZE payload"
  let ?st1 = "fst (open_sink cfg sid True st)"
  let ?b = "single_to_stdout cfg \<and> \<not> has_file ?st1"
  let ?R = "ingest ?b sid seq flags ?p now (cout s, ?st1)"
  have one: "streams s = [] \<or> streams s = [(sid, stream_at sid (streams s))]" by (simp add: s)
  have one': "streams s' = [] \<or> streams s' = [(sid, stream_at sid (streams s'))]" by (simp add: s')
  from deliver_single[OF acc one, of seq flags ?p now True] obtain msgs where
    d: "step cfg (frame_event sid f) s =
      (\<not> seq < expected ?st1 \<and> finished (snd ?R) \<and> \<not> subscribe_all cfg \<and>
         all_done [(sid, snd ?R)] (subs cfg),
       s\<lparr>streams := [(sid, snd ?R)], cout := fst ?R, cerr := cerr s @ msgs\<rparr>)"
    by (auto simp: f step_frame_event_any s)
  have o: "fst (open_sink cfg sid True (st\<lparr>final_at := v\<rparr>)) = ?st1\<lparr>final_at := v\<rparr>"
    by (rule open_sink_final_at)
  from ingest_final_at[where b="?b" and sid=sid and seq=seq and fl=flags and p="?p" and now=now and out="cout s" and st="?st1" and v=v] obtain v' where
    i: "ingest ?b sid seq flags ?p now (cout s, ?st1\<lparr>final_at := v\<rparr>) = (fst ?R, (snd ?R)\<lparr>final_at := v'\<rparr>)"
    by blast
  from deliver_single[OF acc one', of seq flags ?p now True] obtain msgs' where
    d': "step cfg (frame_event sid f) s' =
      (\<not> seq < expected ?st1 \<and> finished (snd ?R) \<and> \<not> subscribe_all cfg \<and>
         all_done [(sid, snd ?R)] (subs cfg),
       s'\<lparr>streams := [(sid, (snd ?R)\<lparr>final_at := v'\<rparr>)], cout := fst ?R, cerr := cerr s' @ msgs'\<rparr>)"
    by (auto simp: f step_frame_event_any s' o c i)
  show ?thesis
    unfolding d d' by (auto simp: same_but_final_at_def)
qed

lemma same_but_final_at_sink:
  "same_but_final_at sid s s' \<Longrightarrow> sink_bytes cfg sid s' = sink_bytes cfg sid s"
  by (auto simp: same_but_final_at_def sink_bytes_def)

lemma dd_full_init:
  assumes acc: "subscribe_all cfg \<or> sid \<in> set (subs cfg)"
  shows "dd_full cfg sid receiver_init"
  by (simp add: dd_full_def dd_state_def dd_stream_def receiver_init_def stream_at_def
      new_stream_def no_max_key_def head_free_def finished_def)

lemma same_but_final_atI:
  assumes "streams s = [(sid, st)]"
  shows "same_but_final_at sid s (s\<lparr>streams := [(sid, st\<lparr>final_at := v\<rparr>)], cerr := c\<rparr>)"
  unfolding same_but_final_at_def using assms
  by (intro conjI exI[of _ st] exI[of _ v]) simp_all

lemma frames_of_append: "frames_of (xs @ ys) = frames_of xs @ frames_of ys"
  by (induction xs rule: frames_of.induct) simp_all

lemma step_timeout:
  "step cfg (RecvTimeout now) s =
     (\<not> subscribe_all cfg \<and> all_done (fst (check_timeouts (timeout cfg) now (streams s))) (subs cfg),
      s\<lparr>streams := fst (check_timeouts (timeout cfg) now (streams s)),
        cerr := cerr s @ snd (check_timeouts (timeout cfg) now (streams s))\<rparr>)"
  by (simp add: step_def split: prod.splits)

lemma check_timeouts_single:
  assumes "strs = [] \<or> strs = [(sid, st)]"
  shows "fst (check_timeouts tmo now strs) = strs \<or>
    (strs = [(sid, st)] \<and> final_seen st \<and>
     fst (check_timeouts tmo now strs) = [(sid, st\<lparr>final_seen := False\<rparr>)])"
  using assms by (auto split: if_splits)

lemma dd_stream_clear: "dd_stream st \<Longrightarrow> dd_stream (st\<lparr>final_seen := False\<rparr>)"
  by (simp add: dd_stream_def no_max_key_def head_free_def finished_def)

lemma step_timeout_dd_state:
  assumes dd: "dd_state cfg sid s"
  shows "dd_state cfg sid (snd (step cfg (RecvTimeout now) s))"
    and "(streams (snd (step cfg (RecvTimeout now) s)) = []) = (streams s = [])"
    and "cout (snd (step cfg (RecvTimeout now) s)) = cout s"
proof -
  let ?st = "stream_at sid (streams s)"
  let ?c = "fst (check_timeouts (timeout cfg) now (streams s))"
  from dd have one: "streams s = [] \<or> streams s = [(sid, ?st)]" by (simp add: dd_state_def)
  from check_timeouts_single[OF one, of "timeout cfg" now]
  have c: "?c = streams s \<or> (streams s = [(sid, ?st)] \<and> ?c = [(sid, ?st\<lparr>final_seen := False\<rparr>)])"
    by blast
  from c show "(streams (snd (step cfg (RecvTimeout now) s)) = []) = (streams s = [])"
    by (auto simp: step_timeout)
  show "cout (snd (step cfg (RecvTimeout now) s)) = cout s" by (simp add: step_timeout)
  from c show "dd_state cfg sid (snd (step cfg (RecvTimeout now) s))"
  proof
    assume "?c = streams s"
    with dd show ?thesis by (simp add: step_timeout dd_state_def)
  next
    assume a: "streams s = [(sid, ?st)] \<and> ?c = [(sid, ?st\<lparr>final_seen := False\<rparr>)]"
    then have "streams s \<noteq> []" by auto
    with dd have "dd_stream ?st" "has_file ?st = (\<not> single_to_stdout cfg)"
      by (simp_all add: dd_state_def)
    with a dd_stream_clear[of ?st] show ?thesis
      by (simp add: step_timeout dd_state_def)
  qed
qed

lemma step_timeout_dd_full:
  assumes dd: "dd_full cfg sid s" and nb: "\<not> fst (step cfg (RecvTimeout now) s)"
  shows "dd_full cfg sid (snd (step cfg (RecvTimeout now) s))"
proof -
  from dd have ds: "dd_state cfg sid s" by (simp add: dd_full_def)
  from nb have "\<not> (\<not> subscribe_all cfg \<and>
      all_done (streams (snd (step cfg (RecvTimeout now) s))) (subs cfg))"
    by (simp add: step_timeout)
  with step_timeout_dd_state(1)[OF ds, of now] show ?thesis by (simp add: dd_full_def)
qed

lemma arrival_step_dd_full:
  assumes acc: "subscribe_all cfg \<or> sid \<in> set (subs cfg)"
    and dd: "dd_full cfg sid s" and ne: "\<forall>f\<in>set (frames_of [a]). fst f \<noteq> - 1"
    and nb: "\<not> fst (step cfg (arrival_event sid a) s)"
  shows "dd_full cfg sid (snd (step cfg (arrival_event sid a) s))"
proof (cases a)
  case (Frame f)
  with step_dd_full[OF acc dd, of f] ne nb show ?thesis by simp
next
  case (TimeoutAt now)
  with step_timeout_dd_full[OF dd, of now] nb show ?thesis by simp
next
  case RecvFails
  with nb show ?thesis by (simp add: step_def)
qed

lemma arrival_step_nonempty:
  assumes acc: "subscribe_all cfg \<or> sid \<in> set (subs cfg)"
    and dd: "dd_state cfg sid s" and ne: "\<forall>f\<in>set (frames_of [a]). fst f \<noteq> - 1"
    and nn: "streams s \<noteq> []"
  shows "streams (snd (step cfg (arrival_event sid a) s)) \<noteq> []"
proof (cases a)
  case (Frame f)
  with step_dd_state(2)[OF acc dd, of f] ne show ?thesis by simp
next
  case (TimeoutAt now)
  with step_timeout_dd_state(2)[OF dd, of now] nn show ?thesis by simp
next
  case RecvFails
  with nn show ?thesis by (simp add: step_def)
qed

lemma seen_inv_weaken: "seen_inv k fl st \<Longrightarrow> g AND FLAG_FINAL = 0 \<Longrightarrow> seen_inv k g st"
  by (simp add: seen_inv_def)

lemma arrival_step_seen_keep:
  assumes acc: "subscribe_all cfg \<or> sid \<in> set (subs cfg)"
    and dd: "dd_state cfg sid s" and ne: "\<forall>f\<in>set (frames_of [a]). fst f \<noteq> - 1"
    and si: "seen_inv k g (stream_at sid (streams s))"
    and one: "g AND FLAG_FINAL \<noteq> 0 \<longrightarrow> \<not> is_timeout a \<and>
      (\<forall>f\<in>set (frames_of [a]). fst (snd f) AND FLAG_FINAL \<noteq> 0 \<longrightarrow> fst f = k)"
  shows "seen_inv k g (stream_at sid (streams (snd (step cfg (arrival_event sid a) s))))"
proof (cases a)
  case (Frame f)
  from ne Frame have n: "fst f \<noteq> - 1" by simp
  from one Frame have o: "g AND FLAG_FINAL \<noteq> 0 \<longrightarrow> fst (snd f) AND FLAG_FINAL \<noteq> 0 \<longrightarrow> fst f = k"
    by simp
  from after_frame_seen_keep[OF dd n si o] step_dd_state(2)[OF acc dd n] Frame
  show ?thesis by simp
next
  case (TimeoutAt now)
  with one have g: "g AND FLAG_FINAL = 0" by auto
  let ?st = "stream_at sid (streams s)"
  let ?c = "fst (check_timeouts (timeout cfg) now (streams s))"
  from dd have "streams s = [] \<or> streams s = [(sid, ?st)]" by (simp add: dd_state_def)
  from check_timeouts_single[OF this, of "timeout cfg" now]
  have "?c = streams s \<or> (streams s = [(sid, ?st)] \<and> ?c = [(sid, ?st\<lparr>final_seen := False\<rparr>)])"
    by blast
  then show ?thesis
  proof
    assume "?c = streams s"
    with si TimeoutAt show ?thesis by (simp add: step_timeout)
  next
    assume "streams s = [(sid, ?st)] \<and> ?c = [(sid, ?st\<lparr>final_seen := False\<rparr>)]"
    with si g TimeoutAt show ?thesis by (simp add: step_timeout seen_inv_def)
  qed
next
  case RecvFails
  with si show ?thesis by (simp add: step_def)
qed

lemma duplicate_ingest:
  assumes ds: "dd_stream st" and seen: "k < expected st \<or> buffer st k \<noteq> None"
  shows "ingest b sid k fl pl now (out, st) =
    (out, if k < expected st \<or> fl AND FLAG_FINAL = 0 then st
          else st\<lparr>final_seen := True, final_seq := k, final_at := now\<rparr>)"
proof (cases "k < expected st")
  case True
  then show ?thesis by (simp add: ingest_stale)
next
  case False
  with seen have bk: "buffer st k \<noteq> None" by simp
  from ds have hf: "buffer st (expected st) = None" and cf: "finished st \<longrightarrow> close_file st = st"
    by (simp_all add: dd_stream_def head_free_def)
  from bk hf have kne: "k \<noteq> expected st" by auto
  have ro: "reorder b k pl out st = Some (out, st)"
    using False kne bk by (auto simp: reorder_def)
  show ?thesis
  proof (cases "fl AND FLAG_FINAL = 0")
    case True
    then have m: "fst (mark_final sid k fl now st) = st" by (simp add: mark_final_def)
    from cf show ?thesis by (simp add: ingest_def ro m Let_def True)
  next
    case nf: False
    then have m: "fst (mark_final sid k fl now st)
      = st\<lparr>final_seen := True, final_seq := k, final_at := now\<rparr>"
      by (simp add: mark_final_def)
    have "\<not> finished (st\<lparr>final_seen := True, final_seq := k, final_at := now\<rparr>)"
      using False by (simp add: finished_def)
    then show ?thesis using False nf by (simp add: ingest_def ro m Let_def)
  qed
qed

lemma duplicate_frame_step:
  assumes acc: "subscribe_all cfg \<or> sid \<in> set (subs cfg)"
    and dd: "dd_full cfg sid s" and ne: "streams s \<noteq> []"
    and si: "seen_inv k g (stream_at sid (streams s))"
  shows "\<exists>msgs. step cfg (frame_event sid (k, fl, pl, t)) s =
    (False, s\<lparr>streams := [(sid,
        if k < expected (stream_at sid (streams s)) \<or> fl AND FLAG_FINAL = 0
        then stream_at sid (streams s)
        else (stream_at sid (streams s))\<lparr>final_seen := True, final_seq := k, final_at := t\<rparr>)],
      cerr := cerr s @ msgs\<rparr>)"
proof -
  let ?st = "stream_at sid (streams s)"
  let ?f = "(k, fl, pl, t)"
  let ?d = "if k < expected ?st \<or> fl AND FLAG_FINAL = 0 then ?st
          else ?st\<lparr>final_seen := True, final_seq := k, final_at := t\<rparr>"
  from dd have ds: "dd_state cfg sid s"
    and nd: "\<not> (finished ?st \<and> \<not> subscribe_all cfg \<and> all_done (streams s) (subs cfg))"
    by (simp_all add: dd_full_def)
  from ds ne have s: "streams s = [(sid, ?st)]" and dst: "dd_stream ?st" by (simp_all add: dd_state_def)
  from si have seen: "k < expected ?st \<or> buffer ?st k \<noteq> None" by (simp add: seen_inv_def)
  from open_sink_dd(3)[OF ds ne] have o: "fst (open_sink cfg sid True ?st) = ?st" .
  from duplicate_ingest[OF dst seen, of "single_to_stdout cfg" sid fl "take PAYLOAD_SIZE pl" t "cout s"]
  have R: "after_frame cfg sid ?f s = (cout s, ?d)"
    by (simp add: after_frame_def o)
  from step_after_frame[OF acc ds, of ?f] obtain msgs where
    st: "step cfg (frame_event sid ?f) s =
      (\<not> k < expected ?st \<and> finished (snd (after_frame cfg sid ?f s)) \<and> \<not> subscribe_all cfg \<and>
         all_done [(sid, snd (after_frame cfg sid ?f s))] (subs cfg),
       s\<lparr>streams := [(sid, snd (after_frame cfg sid ?f s))],
         cout := fst (after_frame cfg sid ?f s), cerr := cerr s @ msgs\<rparr>)" by auto
  have nb: "\<not> (\<not> k < expected ?st \<and> finished ?d \<and> \<not> subscribe_all cfg \<and> all_done [(sid, ?d)] (subs cfg))"
  proof (cases "k < expected ?st \<or> fl AND FLAG_FINAL = 0")
    case True
    with nd s show ?thesis by auto
  next
    case False
    then show ?thesis by (simp add: finished_def)
  qed
  have "step cfg (frame_event sid ?f) s = (False, s\<lparr>streams := [(sid, ?d)], cerr := cerr s @ msgs\<rparr>)"
    unfolding st R using nb by simp
  then show ?thesis by blast
qed

lemma frames_of_Cons: "set (frames_of (a # rest)) = set (frames_of [a]) \<union> set (frames_of rest)"
  by (cases a) auto

lemma run_arrivals_dd_full:
  assumes acc: "subscribe_all cfg \<or> sid \<in> set (subs cfg)"
    and dd: "dd_full cfg sid s" and ne: "\<forall>f\<in>set (frames_of as). fst f \<noteq> - 1"
    and nb: "\<not> fst (run_loop cfg (map (arrival_event sid) as) s)"
  shows "dd_full cfg sid (snd (run_loop cfg (map (arrival_event sid) as) s))"
  using dd ne nb
proof (induction as arbitrary: s)
  case Nil
  then show ?case by simp
next
  case (Cons a as)
  obtain brk s1 where st: "step cfg (arrival_event sid a) s = (brk, s1)" by force
  with Cons.prems(3) have nbrk: "\<not> brk" and nb': "\<not> fst (run_loop cfg (map (arrival_event sid) as) s1)"
    by (auto split: if_splits)
  from Cons.prems(2) have ne1: "\<forall>f\<in>set (frames_of [a]). fst f \<noteq> - 1"
    and ne2: "\<forall>f\<in>set (frames_of as). fst f \<noteq> - 1"
    unfolding frames_of_Cons[of a as] by simp_all
  from arrival_step_dd_full[OF acc Cons.prems(1) ne1] st nbrk have "dd_full cfg sid s1" by simp
  from Cons.IH[OF this ne2 nb'] show ?case using st nbrk by simp
qed

lemma arrival_step_dd_state:
  assumes acc: "subscribe_all cfg \<or> sid \<in> set (subs cfg)"
    and dd: "dd_state cfg sid s" and ne: "\<forall>f\<in>set (frames_of [a]). fst f \<noteq> - 1"
  shows "dd_state cfg sid (snd (step cfg (arrival_event sid a) s))"
proof (cases a)
  case (Frame f)
  with step_dd_state(1)[OF acc dd, of f] ne show ?thesis by simp
next
  case (TimeoutAt now)
  with step_timeout_dd_state(1)[OF dd, of now] show ?thesis by simp
next
  case RecvFails
  with dd show ?thesis by (simp add: step_def dd_state_def)
qed

lemma run_arrivals_seen_keep:
  assumes acc: "subscribe_all cfg \<or> sid \<in> set (subs cfg)"
    and dd: "dd_state cfg sid s" and ne: "\<forall>f\<in>set (frames_of as). fst f \<noteq> - 1"
    and nn: "streams s \<noteq> []"
    and si: "seen_inv k g (stream_at sid (streams s))"
    and one: "g AND FLAG_FINAL \<noteq> 0 \<longrightarrow> (\<forall>a\<in>set as. \<not> is_timeout a) \<and>
      (\<forall>f\<in>set (frames_of as). fst (snd f) AND FLAG_FINAL \<noteq> 0 \<longrightarrow> fst f = k)"
  shows "seen_inv k g (stream_at sid (streams (snd (run_loop cfg (map (arrival_event sid) as) s)))) \<and>
    streams (snd (run_loop cfg (map (arrival_event sid) as) s)) \<noteq> []"
  using dd ne nn si one
proof (induction as arbitrary: s)
  case Nil
  then show ?case by simp
next
  case (Cons a as)
  obtain brk s1 where st: "step cfg (arrival_event sid a) s = (brk, s1)" by force
  from Cons.prems(2) have ne1: "\<forall>f\<in>set (frames_of [a]). fst f \<noteq> - 1"
    and ne2: "\<forall>f\<in>set (frames_of as). fst f \<noteq> - 1"
    unfolding frames_of_Cons[of a as] by simp_all
  from Cons.prems(5) have o1: "g AND FLAG_FINAL \<noteq> 0 \<longrightarrow> \<not> is_timeout a \<and>
      (\<forall>f\<in>set (frames_of [a]). fst (snd f) AND FLAG_FINAL \<noteq> 0 \<longrightarrow> fst f = k)"
    and o2: "g AND FLAG_FINAL \<noteq> 0 \<longrightarrow> (\<forall>a\<in>set as. \<not> is_timeout a) \<and>
      (\<forall>f\<in>set (frames_of as). fst (snd f) AND FLAG_FINAL \<noteq> 0 \<longrightarrow> fst f = k)"
    unfolding frames_of_Cons[of a as] by auto
  from arrival_step_dd_state[OF acc Cons.prems(1) ne1] st have d1: "dd_state cfg sid s1" by simp
  from arrival_step_nonempty[OF acc Cons.prems(1) ne1 Cons.prems(3)] st have n1: "streams s1 \<noteq> []"
    by simp
  from arrival_step_seen_keep[OF acc Cons.prems(1) ne1 Cons.prems(4) o1] st
  have s1: "seen_inv k g (stream_at sid (streams s1))" by simp
  show ?case
  proof (cases brk)
    case True
    with st s1 n1 show ?thesis by simp
  next
    case False
    with Cons.IH[OF d1 ne2 n1 s1 o2] st show ?thesis by simp
  qed
qed

lemma run_arrivals_seen_new:
  assumes acc: "subscribe_all cfg \<or> sid \<in> set (subs cfg)"
    and dd: "dd_state cfg sid s"
    and ne: "\<forall>f\<in>set (frames_of (xs @ Frame (k, fl, pl, t) # ys)). fst f \<noteq> - 1"
    and one: "g AND FLAG_FINAL \<noteq> 0 \<longrightarrow> g = fl \<and> (\<forall>a\<in>set ys. \<not> is_timeout a) \<and>
      (\<forall>f\<in>set (frames_of ys). fst (snd f) AND FLAG_FINAL \<noteq> 0 \<longrightarrow> fst f = k)"
    and nb: "\<not> fst (run_loop cfg (map (arrival_event sid) (xs @ Frame (k, fl, pl, t) # ys)) s)"
  shows "seen_inv k g (stream_at sid (streams (snd
      (run_loop cfg (map (arrival_event sid) (xs @ Frame (k, fl, pl, t) # ys)) s)))) \<and>
    streams (snd (run_loop cfg (map (arrival_event sid) (xs @ Frame (k, fl, pl, t) # ys)) s)) \<noteq> []"
  using dd ne nb
proof (induction xs arbitrary: s)
  case Nil
  let ?f = "(k, fl, pl, t)"
  obtain brk s1 where st: "step cfg (frame_event sid ?f) s = (brk, s1)" by force
  from Nil.prems(3) st have nbrk: "\<not> brk" by (auto split: if_splits)
  from Nil.prems(2) have k: "k \<noteq> - 1" and ne2: "\<forall>f\<in>set (frames_of ys). fst f \<noteq> - 1" by simp_all
  from step_dd_state[OF acc Nil.prems(1), of ?f] k st
  have d1: "dd_state cfg sid s1" and s1: "streams s1 = [(sid, snd (after_frame cfg sid ?f s))]"
    by simp_all
  from s1 have n1: "streams s1 \<noteq> []" by simp
  from after_frame_seen_new[OF Nil.prems(1) k, of fl pl t] s1
  have "seen_inv k fl (stream_at sid (streams s1))" by simp
  with one have si: "seen_inv k g (stream_at sid (streams s1))"
    by (cases "g AND FLAG_FINAL = 0") (auto intro: seen_inv_weaken)
  from one have o2: "g AND FLAG_FINAL \<noteq> 0 \<longrightarrow> (\<forall>a\<in>set ys. \<not> is_timeout a) \<and>
      (\<forall>f\<in>set (frames_of ys). fst (snd f) AND FLAG_FINAL \<noteq> 0 \<longrightarrow> fst f = k)" by simp
  from run_arrivals_seen_keep[OF acc d1 ne2 n1 si o2] show ?case using st nbrk by simp
next
  case (Cons x xs)
  obtain brk s1 where st: "step cfg (arrival_event sid x) s = (brk, s1)" by force
  from Cons.prems(3) st have nbrk: "\<not> brk"
    and nb': "\<not> fst (run_loop cfg (map (arrival_event sid) (xs @ Frame (k, fl, pl, t) # ys)) s1)"
    by (auto split: if_splits)
  from Cons.prems(2) have x: "\<forall>f\<in>set (frames_of [x]). fst f \<noteq> - 1"
    and ne2: "\<forall>f\<in>set (frames_of (xs @ Frame (k, fl, pl, t) # ys)). fst f \<noteq> - 1"
    using frames_of_Cons[of x "xs @ Frame (k, fl, pl, t) # ys"] by simp_all
  from arrival_step_dd_state[OF acc Cons.prems(1) x] st have d1: "dd_state cfg sid s1" by simp
  from Cons.IH[OF d1 ne2 nb'] show ?case using st nbrk by simp
qed

lemma step_cerr:
  "fst (step cfg ev (s\<lparr>cerr := c\<rparr>)) = fst (step cfg ev s) \<and>
   streams (snd (step cfg ev (s\<lparr>cerr := c\<rparr>))) = streams (snd (step cfg ev s)) \<and>
   cout (snd (step cfg ev (s\<lparr>cerr := c\<rparr>))) = cout (snd (step cfg ev s))"
  by (cases ev)
    (simp_all add: step_def on_datagram_def deliver_def Let_def split: option.splits prod.splits)

lemma run_cerr:
  assumes "streams s' = streams s" and "cout s' = cout s"
  shows "fst (run_loop cfg evs s') = fst (run_loop cfg evs s) \<and>
    streams (snd (run_loop cfg evs s')) = streams (snd (run_loop cfg evs s)) \<and>
    cout (snd (run_loop cfg evs s')) = cout (snd (run_loop cfg evs s))"
  using assms
proof (induction evs arbitrary: s s')
  case Nil
  then show ?case by simp
next
  case (Cons ev evs)
  from Cons.prems have e: "s' = s\<lparr>cerr := cerr s'\<rparr>" by (cases s, cases s') simp
  obtain brk s1 where st: "step cfg ev s = (brk, s1)" by force
  obtain brk' s1' where st': "step cfg ev s' = (brk', s1')" by force
  from step_cerr[where cfg=cfg and ev=ev and s=s and c="cerr s'"] e st st'
  have b: "brk' = brk" and r: "streams s1' = streams s1" "cout s1' = cout s1" by simp_all
  from Cons.IH[OF r] r show ?case by (simp add: st st' b)
qed

lemma sim_arrival_step:
  assumes acc: "subscribe_all cfg \<or> sid \<in> set (subs cfg)"
    and rel: "same_but_final_at sid s s'" and nt: "\<not> is_timeout a"
  shows "fst (step cfg (arrival_event sid a) s') = fst (step cfg (arrival_event sid a) s) \<and>
    same_but_final_at sid (snd (step cfg (arrival_event sid a) s))
      (snd (step cfg (arrival_event sid a) s'))"
proof (cases a)
  case (Frame f)
  with sim_step[OF acc rel, of f] show ?thesis by simp
next
  case (TimeoutAt now)
  with nt show ?thesis by simp
next
  case RecvFails
  with rel show ?thesis by (simp add: step_def same_but_final_at_def)
qed

lemma sim_arrivals:
  assumes acc: "subscribe_all cfg \<or> sid \<in> set (subs cfg)"
    and rel: "same_but_final_at sid s s'" and nt: "\<forall>a\<in>set as. \<not> is_timeout a"
  shows "same_but_final_at sid (snd (run_loop cfg (map (arrival_event sid) as) s))
      (snd (run_loop cfg (map (arrival_event sid) as) s'))"
  using rel nt
proof (induction as arbitrary: s s')
  case Nil
  then show ?case by simp
next
  case (Cons a as)
  obtain brk s1 where st: "step cfg (arrival_event sid a) s = (brk, s1)" by force
  obtain brk' s1' where st': "step cfg (arrival_event sid a) s' = (brk', s1')" by force
  from Cons.prems(2) have nt1: "\<not> is_timeout a" and nt2: "\<forall>a\<in>set as. \<not> is_timeout a" by simp_all
  from sim_arrival_step[OF acc Cons.prems(1) nt1] st st'
  have b: "brk' = brk" and r: "same_but_final_at sid s1 s1'" by simp_all
  show ?case
    using Cons.IH[OF r nt2] r by (simp add: st st' b)
qed

lemma same_data_refl: "same_data m st st"
  by (simp add: same_data_def)

lemma emit_same_data:
  assumes "same_data m st st'" and "m < expected st \<longrightarrow> p = []"
  shows "fst (emit b p (out, st')) = fst (emit b p (out, st)) \<and>
    same_data m (snd (emit b p (out, st))) (snd (emit b p (out, st')))"
  using assms by (auto simp: emit_def same_data_def)

lemma flush_buffered_same_data:
  assumes "same_data m st st'"
    and "\<forall>key p. buffer st key = Some p \<longrightarrow> m < key \<longrightarrow> p = []"
    and "no_max_key st"
  shows "fst (flush_buffered b out st') = fst (flush_buffered b out st) \<and>
    same_data m (snd (flush_buffered b out st)) (snd (flush_buffered b out st'))"
  using assms
proof (induction b out st arbitrary: st' rule: flush_buffered.induct)
  case (1 b out st)
  from "1.prems"(1) have e: "expected st' = expected st" and bf: "buffer st' = buffer st"
    by (simp_all add: same_data_def)
  show ?case
  proof (cases "buffer st (expected st)")
    case None
    with e bf have "buffer st' (expected st') = None" by simp
    with None "1.prems"(1) show ?thesis
      by (subst (1 2) flush_buffered.simps, subst (1 2) flush_buffered.simps) simp
  next
    case (Some p)
    with e bf have Some': "buffer st' (expected st') = Some p" by simp
    from Some "1.prems"(3) have nm1: "expected st \<noteq> - 1" by (auto simp: no_max_key_def)
    from Some "1.prems"(2) have pe: "m < expected st \<longrightarrow> p = []" by blast
    let ?u = "(snd (emit b p (out, st)))
       \<lparr>buffer := (buffer st)(expected st := None), expected := expected st + 1\<rparr>"
    let ?u' = "(snd (emit b p (out, st')))
       \<lparr>buffer := (buffer st')(expected st' := None), expected := expected st' + 1\<rparr>"
    from emit_same_data[OF "1.prems"(1) pe, of b out]
    have o: "fst (emit b p (out, st')) = fst (emit b p (out, st))"
      and sd: "same_data m (snd (emit b p (out, st))) (snd (emit b p (out, st')))" by simp_all
    have lt: "m < expected st \<Longrightarrow> m < expected st + 1"
      using word_lt_succ[OF nm1] by simp
    from sd e bf lt have sdu: "same_data m ?u ?u'"
      by (auto simp: same_data_def emit_fields)
    have tu: "\<forall>key p. buffer ?u key = Some p \<longrightarrow> m < key \<longrightarrow> p = []"
      using "1.prems"(2) by (auto split: if_splits)
    have nu: "no_max_key ?u" using "1.prems"(3) by (simp add: no_max_key_def)
    have l: "flush_buffered b out st = flush_buffered b (fst (emit b p (out, st))) ?u"
      by (subst flush_buffered.simps) (simp add: Some)
    have r: "flush_buffered b out st' = flush_buffered b (fst (emit b p (out, st))) ?u'"
      by (subst flush_buffered.simps) (simp add: Some' o)
    from "1.IH"[OF Some sdu tu nu] show ?thesis unfolding l r .
  qed
qed

lemma flush_buffered_quiet:
  assumes "\<forall>key p. buffer st key = Some p \<longrightarrow> m < key \<longrightarrow> p = []"
    and "m < expected st" and "no_max_key st"
  shows "fst (flush_buffered b out st) = out \<and> fout (snd (flush_buffered b out st)) = fout st"
  using assms
proof (induction b out st rule: flush_buffered.induct)
  case (1 b out st)
  show ?case
  proof (cases "buffer st (expected st)")
    case None
    then show ?thesis by (subst (1 2) flush_buffered.simps) simp
  next
    case (Some p)
    from Some "1.prems"(3) have nm1: "expected st \<noteq> - 1" by (auto simp: no_max_key_def)
    from Some "1.prems"(1,2) have p: "p = []" by blast
    let ?u = "(snd (emit b p (out, st)))
       \<lparr>buffer := (buffer st)(expected st := None), expected := expected st + 1\<rparr>"
    have em: "emit b p (out, st) = (out, st)" by (simp add: p emit_def)
    have lt: "m < expected st + 1"
      using word_lt_succ[OF nm1] "1.prems"(2) by simp
    have tu: "\<forall>key p. buffer ?u key = Some p \<longrightarrow> m < key \<longrightarrow> p = []"
      using "1.prems"(1) by (auto simp: em split: if_splits)
    have nu: "no_max_key ?u" using "1.prems"(3) by (simp add: no_max_key_def em)
    have eu: "m < expected ?u" using lt by simp
    have l: "flush_buffered b out st = flush_buffered b (fst (emit b p (out, st))) ?u"
      by (subst flush_buffered.simps) (simp add: Some)
    from "1.IH"[OF Some tu eu nu] show ?thesis unfolding l by (simp add: em)
  qed
qed

lemma reorder_same_data:
  assumes sd: "same_data m st st'"
    and te: "\<forall>key p. buffer st key = Some p \<longrightarrow> m < key \<longrightarrow> p = []"
    and nm: "no_max_key st" and ne: "seq \<noteq> - 1"
    and pe: "m < seq \<longrightarrow> payload = []"
  shows "reorder b seq payload out st = None \<Longrightarrow> reorder b seq payload out st' = None"
    and "reorder b seq payload out st = Some (o2, st2) \<Longrightarrow>
      \<exists>st2'. reorder b seq payload out st' = Some (o2, st2') \<and> same_data m st2 st2'"
proof -
  from sd have e: "expected st' = expected st" and bf: "buffer st' = buffer st"
    by (simp_all add: same_data_def)
  show "reorder b seq payload out st = None \<Longrightarrow> reorder b seq payload out st' = None"
    using e by (auto simp: reorder_def split: if_splits prod.splits)
  assume ro: "reorder b seq payload out st = Some (o2, st2)"
  show "\<exists>st2'. reorder b seq payload out st' = Some (o2, st2') \<and> same_data m st2 st2'"
  proof (cases "seq = expected st")
    case True
    let ?e = "emit b payload (out, st)"
    let ?e' = "emit b payload (out, st')"
    let ?u = "(snd ?e)\<lparr>expected := expected (snd ?e) + 1\<rparr>"
    let ?u' = "(snd ?e')\<lparr>expected := expected (snd ?e') + 1\<rparr>"
    from pe True have pe': "m < expected st \<longrightarrow> payload = []" by simp
    from emit_same_data[OF sd pe', of b out]
    have o: "fst ?e' = fst ?e" and sde: "same_data m (snd ?e) (snd ?e')" by simp_all
    from ne True have "expected st \<noteq> - 1" by simp
    from word_lt_succ[OF this] have lt: "m < expected st \<Longrightarrow> m < expected st + 1" by simp
    from sde e lt have sdu: "same_data m ?u ?u'"
      by (auto simp: same_data_def emit_fields)
    have tu: "\<forall>key p. buffer ?u key = Some p \<longrightarrow> m < key \<longrightarrow> p = []"
      using te by (simp add: emit_fields)
    have nu: "no_max_key ?u" using nm by (simp add: no_max_key_def emit_fields)
    from flush_buffered_same_data[OF sdu tu nu, of b "fst ?e"]
    have f: "fst (flush_buffered b (fst ?e) ?u') = fst (flush_buffered b (fst ?e) ?u)"
      "same_data m (snd (flush_buffered b (fst ?e) ?u)) (snd (flush_buffered b (fst ?e) ?u'))"
      by simp_all
    from ro True have r1: "flush_buffered b (fst ?e) ?u = (o2, st2)"
      by (simp add: reorder_def case_prod_beta)
    from True e have r2: "reorder b seq payload out st' = Some (flush_buffered b (fst ?e) ?u')"
      by (simp add: reorder_def case_prod_beta o)
    from f r1 have "flush_buffered b (fst ?e) ?u' = (o2, snd (flush_buffered b (fst ?e) ?u'))"
      "same_data m st2 (snd (flush_buffered b (fst ?e) ?u'))"
      by (simp_all add: prod_eq_iff)
    with r2 show ?thesis by auto
  next
    case False
    with ro have ge: "\<not> seq < expected st" by (auto simp: reorder_def split: if_splits)
    from ro False ge have r1: "o2 = out"
      "st2 = (if buffer st seq = None then st\<lparr>buffer := (buffer st)(seq \<mapsto> payload)\<rparr> else st)"
      by (auto simp: reorder_def split: if_splits)
    from False ge e bf have r2: "reorder b seq payload out st' =
      Some (out, if buffer st seq = None then st'\<lparr>buffer := (buffer st')(seq \<mapsto> payload)\<rparr> else st')"
      by (simp add: reorder_def)
    from sd have "same_data m st2
      (if buffer st seq = None then st'\<lparr>buffer := (buffer st')(seq \<mapsto> payload)\<rparr> else st')"
      unfolding r1 by (auto simp: same_data_def)
    with r1 r2 show ?thesis by simp
  qed
qed

lemma reorder_buffer_sub:
  assumes nm: "no_max_key st"
    and ro: "reorder b seq payload out st = Some (o2, st2)"
    and bk: "buffer st2 key = Some p"
  shows "buffer st key = Some p \<or> (key = seq \<and> p = payload)"
proof (cases "seq = expected st")
  case True
  let ?e = "emit b payload (out, st)"
  let ?u = "(snd ?e)\<lparr>expected := expected (snd ?e) + 1\<rparr>"
  from ro True have r1: "flush_buffered b (fst ?e) ?u = (o2, st2)"
    by (simp add: reorder_def case_prod_beta)
  have nu: "no_max_key ?u" using nm by (simp add: no_max_key_def emit_fields)
  from flush_buffered_nowrap[OF nu, of b "fst ?e"] r1
  have "buffer st2 key = (if expected ?u \<le> key \<and> key < expected st2 then None else buffer ?u key)"
    by simp
  with bk show ?thesis by (auto simp: emit_fields split: if_splits)
next
  case False
  with ro have "st2 = (if buffer st seq = None then st\<lparr>buffer := (buffer st)(seq \<mapsto> payload)\<rparr> else st)"
    by (auto simp: reorder_def split: if_splits)
  with bk show ?thesis by (auto split: if_splits)
qed

lemma finished_past_end:
  "finished st \<Longrightarrow> tail_empty m st \<Longrightarrow> m < expected st"
  by (auto simp: finished_def tail_empty_def)

lemma ingest_tail_empty:
  assumes te: "tail_empty m st" and nm: "no_max_key st" and hf: "head_free st" and ne: "seq \<noteq> - 1"
    and fr: "flags AND FLAG_FINAL \<noteq> 0 \<longrightarrow> m \<le> seq" "m < seq \<longrightarrow> payload = []"
  shows "tail_empty m (snd (ingest b sid seq flags payload now (out, st)))"
proof (cases "reorder b seq payload out st")
  case None
  with te show ?thesis by (simp add: ingest_def)
next
  case (Some r)
  obtain o2 st2 where r: "r = (o2, st2)" by force
  note ro = Some[unfolded r]
  note rn = reorder_nowrap[OF nm hf ne ro]
  have b2: "\<forall>key p. buffer st2 key = Some p \<longrightarrow> m < key \<longrightarrow> p = []"
  proof (intro allI impI)
    fix key p assume a: "buffer st2 key = Some p" "m < key"
    from reorder_buffer_sub[OF nm ro a(1)] te fr(2) a(2) show "p = []"
      by (auto simp: tail_empty_def)
  qed
  let ?st3 = "fst (mark_final sid seq flags now st2)"
  have t3: "tail_empty m ?st3"
    using b2 te fr(1) rn(6,7) by (auto simp: tail_empty_def mark_final_def)
  have "tail_empty m (if finished ?st3 then close_file ?st3 else ?st3)"
    using t3 by (simp add: tail_empty_def close_file_fields)
  then show ?thesis by (simp add: ingest_def ro Let_def)
qed

lemma ingest_same_data:
  assumes sd: "same_data m st st'"
    and te: "tail_empty m st" "tail_empty m st'"
    and ds: "dd_stream st" "dd_stream st'"
    and ne: "seq \<noteq> - 1"
    and fr: "flags AND FLAG_FINAL \<noteq> 0 \<longrightarrow> m \<le> seq" "m < seq \<longrightarrow> payload = []"
  shows "fst (ingest b sid seq flags payload now (out, st')) = fst (ingest b sid seq flags payload now (out, st))"
    and "same_data m (snd (ingest b sid seq flags payload now (out, st)))
           (snd (ingest b sid seq flags payload now (out, st')))"
proof -
  from ds have nm: "no_max_key st" "no_max_key st'" and hf: "head_free st" "head_free st'"
    by (simp_all add: dd_stream_def)
  from te(1) have tb: "\<forall>key p. buffer st key = Some p \<longrightarrow> m < key \<longrightarrow> p = []"
    by (simp add: tail_empty_def)
  note rs = reorder_same_data[OF sd tb nm(1) ne fr(2), of b out]
  have "fst (ingest b sid seq flags payload now (out, st')) = fst (ingest b sid seq flags payload now (out, st))
    \<and> same_data m (snd (ingest b sid seq flags payload now (out, st)))
           (snd (ingest b sid seq flags payload now (out, st')))"
  proof (cases "reorder b seq payload out st")
    case None
    from rs(1)[OF None] None sd show ?thesis by (simp add: ingest_def)
  next
    case (Some r)
    obtain o2 st2 where r: "r = (o2, st2)" by force
    note ro = Some[unfolded r]
    from rs(2)[OF ro] obtain st2' where ro': "reorder b seq payload out st' = Some (o2, st2')"
      and sd2: "same_data m st2 st2'" by blast
    let ?st3 = "fst (mark_final sid seq flags now st2)"
    let ?st3' = "fst (mark_final sid seq flags now st2')"
    let ?r = "if finished ?st3 then close_file ?st3 else ?st3"
    let ?r' = "if finished ?st3' then close_file ?st3' else ?st3'"
    from sd2 have sd3: "same_data m ?st3 ?st3'"
      by (simp add: same_data_def mark_final_fields)
    have i: "ingest b sid seq flags payload now (out, st) = (o2, ?r)"
      by (simp add: ingest_def ro Let_def)
    have i': "ingest b sid seq flags payload now (out, st') = (o2, ?r')"
      by (simp add: ingest_def ro' Let_def)
    from ingest_tail_empty[OF te(1) nm(1) hf(1) ne fr, of b sid now out] i
    have tr: "tail_empty m ?r" by simp
    from ingest_tail_empty[OF te(2) nm(2) hf(2) ne fr, of b sid now out] i'
    have tr': "tail_empty m ?r'" by simp
    have f1: "finished ?st3 \<Longrightarrow> m < expected ?st3"
    proof -
      assume f: "finished ?st3"
      then have "finished ?r" by (simp add: finished_def close_file_fields)
      from finished_past_end[OF this tr] f show ?thesis by (simp add: close_file_fields)
    qed
    have f2: "finished ?st3' \<Longrightarrow> m < expected ?st3"
    proof -
      assume f: "finished ?st3'"
      then have "finished ?r'" by (simp add: finished_def close_file_fields)
      from finished_past_end[OF this tr'] f sd3 show ?thesis
        by (simp add: close_file_fields same_data_def)
    qed
    from sd3 f1 f2 have "same_data m ?r ?r'"
      by (auto simp: same_data_def close_file_fields)
    with i i' show ?thesis by simp
  qed
  then show "fst (ingest b sid seq flags payload now (out, st')) = fst (ingest b sid seq flags payload now (out, st))"
    and "same_data m (snd (ingest b sid seq flags payload now (out, st)))
           (snd (ingest b sid seq flags payload now (out, st')))"
    by simp_all
qed

lemma ingest_quiet:
  assumes te: "tail_empty m st" and ds: "dd_stream st" and past: "m < expected st"
    and ne: "seq \<noteq> - 1" and pe: "m < seq \<longrightarrow> payload = []"
  shows "fst (ingest b sid seq flags payload now (out, st)) = out \<and>
    written (fout (snd (ingest b sid seq flags payload now (out, st)))) = written (fout st) \<and>
    m < expected (snd (ingest b sid seq flags payload now (out, st)))"
proof (cases "reorder b seq payload out st")
  case None
  with past show ?thesis by (simp add: ingest_def)
next
  case (Some r)
  obtain o2 st2 where r: "r = (o2, st2)" by force
  note ro = Some[unfolded r]
  from ds have nm: "no_max_key st" and hf: "head_free st" by (simp_all add: dd_stream_def)
  note rn = reorder_nowrap[OF nm hf ne ro]
  from te have tb: "\<forall>key p. buffer st key = Some p \<longrightarrow> m < key \<longrightarrow> p = []"
    by (simp add: tail_empty_def)
  have q: "o2 = out \<and> fout st2 = fout st"
  proof (cases "seq = expected st")
    case True
    with pe past have p: "payload = []" by simp
    let ?u = "st\<lparr>expected := expected st + 1\<rparr>"
    from ro True have r1: "flush_buffered b out ?u = (o2, st2)"
      by (simp add: reorder_def p emit_def)
    from ne True have "expected st \<noteq> - 1" by simp
    from word_lt_succ[OF this] past have lt: "m < expected ?u" by simp
    have tu: "\<forall>key p. buffer ?u key = Some p \<longrightarrow> m < key \<longrightarrow> p = []" using tb by simp
    have nu: "no_max_key ?u" using nm by (simp add: no_max_key_def)
    from flush_buffered_quiet[OF tu lt nu, of b out] r1 show ?thesis by simp
  next
    case False
    with ro show ?thesis by (auto simp: reorder_def split: if_splits)
  qed
  let ?st3 = "fst (mark_final sid seq flags now st2)"
  let ?r = "if finished ?st3 then close_file ?st3 else ?st3"
  have i: "ingest b sid seq flags payload now (out, st) = (o2, ?r)"
    by (simp add: ingest_def ro Let_def)
  from rn(1) past have "m < expected st2" by simp
  with q show ?thesis
    unfolding i by (simp add: close_file_fields mark_final_fields)
qed

lemma fits_Frame:
  "fits m (Frame (seq, flags, payload, now)) \<longleftrightarrow>
     (flags AND FLAG_FINAL \<noteq> 0 \<longrightarrow> m \<le> seq) \<and> (m < seq \<longrightarrow> payload = []) \<and> seq \<noteq> - 1"
  by (auto simp: fits_def data_ends_at_def)

lemma tail_empty_open_sink:
  "tail_empty m (fst (open_sink cfg sid g st)) = tail_empty m st"
  by (simp add: tail_empty_def open_sink_fields)

lemma tail_empty_new_stream: "tail_empty m new_stream"
  by (simp add: tail_empty_def new_stream_def)

lemma step_timeout_stream:
  assumes dd: "dd_state cfg sid s"
  shows "\<exists>x. stream_at sid (streams (snd (step cfg (RecvTimeout now) s)))
    = (stream_at sid (streams s))\<lparr>final_seen := x\<rparr> \<and> (x \<longrightarrow> final_seen (stream_at sid (streams s)))"
proof -
  let ?st = "stream_at sid (streams s)"
  let ?c = "fst (check_timeouts (timeout cfg) now (streams s))"
  from dd have "streams s = [] \<or> streams s = [(sid, ?st)]" by (simp add: dd_state_def)
  from check_timeouts_single[OF this, of "timeout cfg" now]
  have "?c = streams s \<or> (streams s = [(sid, ?st)] \<and> ?c = [(sid, ?st\<lparr>final_seen := False\<rparr>)])"
    by blast
  then show ?thesis
  proof
    assume "?c = streams s"
    then have "stream_at sid (streams (snd (step cfg (RecvTimeout now) s)))
      = ?st\<lparr>final_seen := final_seen ?st\<rparr>" by (simp add: step_timeout)
    then show ?thesis by blast
  next
    assume "streams s = [(sid, ?st)] \<and> ?c = [(sid, ?st\<lparr>final_seen := False\<rparr>)]"
    then have "stream_at sid (streams (snd (step cfg (RecvTimeout now) s)))
      = ?st\<lparr>final_seen := False\<rparr>" by (simp add: step_timeout)
    then show ?thesis by blast
  qed
qed

lemma tail_empty_final_seen:
  "tail_empty m st \<Longrightarrow> (x \<longrightarrow> final_seen st) \<Longrightarrow> tail_empty m (st\<lparr>final_seen := x\<rparr>)"
  by (auto simp: tail_empty_def)

lemma same_data_final_seen [simp]:
  "same_data m (st\<lparr>final_seen := x\<rparr>) (st'\<lparr>final_seen := y\<rparr>) = same_data m st st'"
  by (simp add: same_data_def)

lemma after_frame_tail_empty:
  assumes dd: "dd_state cfg sid s" and te: "tail_empty m (stream_at sid (streams s))"
    and ft: "fits m (Frame f)"
  shows "tail_empty m (snd (after_frame cfg sid f s))"
proof -
  obtain seq flags payload now where f: "f = (seq, flags, payload, now)" by (cases f) auto
  from ft have fr: "flags AND FLAG_FINAL \<noteq> 0 \<longrightarrow> m \<le> seq" "m < seq \<longrightarrow> take PAYLOAD_SIZE payload = []"
    and ne: "seq \<noteq> - 1" by (auto simp: f fits_Frame)
  note d1 = open_sink_dd(1)[OF dd]
  from te have t1: "tail_empty m (fst (open_sink cfg sid True (stream_at sid (streams s))))"
    by (simp add: tail_empty_open_sink)
  from ingest_tail_empty[OF t1 dd_streamD[OF d1] ne fr]
  show ?thesis by (simp add: f after_frame_def)
qed

lemma arrival_step_tail_empty:
  assumes acc: "subscribe_all cfg \<or> sid \<in> set (subs cfg)"
    and dd: "dd_state cfg sid s" and te: "tail_empty m (stream_at sid (streams s))"
    and ft: "fits m a"
  shows "tail_empty m (stream_at sid (streams (snd (step cfg (arrival_event sid a) s))))"
proof (cases a)
  case (Frame f)
  from ft Frame have ne: "fst f \<noteq> - 1" by (simp add: fits_def)
  from after_frame_tail_empty[OF dd te ft[unfolded Frame]] step_dd_state(2)[OF acc dd ne] Frame
  show ?thesis by simp
next
  case (TimeoutAt now)
  from step_timeout_stream[OF dd, of now] obtain x where
    "stream_at sid (streams (snd (step cfg (RecvTimeout now) s)))
      = (stream_at sid (streams s))\<lparr>final_seen := x\<rparr>" "x \<longrightarrow> final_seen (stream_at sid (streams s))"
    by blast
  with tail_empty_final_seen[OF te, of x] TimeoutAt show ?thesis by simp
next
  case RecvFails
  with te show ?thesis by (simp add: step_def)
qed

lemma all_done_memD:
  "all_done strs ss \<Longrightarrow> sid \<in> set ss \<Longrightarrow>
   \<exists>st. map_of strs sid = Some st \<and> final_seen st \<and> final_seq st < expected st"
  by (induction ss) (auto split: option.splits if_splits)

lemma arrival_step_brk_past:
  assumes acc: "subscribe_all cfg \<or> sid \<in> set (subs cfg)"
    and dd: "dd_state cfg sid s" and te: "tail_empty m (stream_at sid (streams s))"
    and ft: "fits m a" and nf: "a \<noteq> RecvFails"
    and brk: "fst (step cfg (arrival_event sid a) s)"
  shows "m < expected (stream_at sid (streams (snd (step cfg (arrival_event sid a) s))))"
proof -
  let ?s1 = "snd (step cfg (arrival_event sid a) s)"
  note t1 = arrival_step_tail_empty[OF acc dd te ft]
  have "finished (stream_at sid (streams ?s1))"
  proof (cases a)
    case (Frame f)
    from ft Frame have ne: "fst f \<noteq> - 1" by (simp add: fits_def)
    from step_after_frame[OF acc dd, of f] brk Frame
    have "finished (snd (after_frame cfg sid f s))" by auto
    with step_dd_state(2)[OF acc dd ne] Frame show ?thesis by simp
  next
    case (TimeoutAt now)
    with brk have na: "\<not> subscribe_all cfg" and ad: "all_done (streams ?s1) (subs cfg)"
      by (simp_all add: step_timeout)
    from na acc have "sid \<in> set (subs cfg)" by simp
    from all_done_memD[OF ad this] show ?thesis
      by (auto simp: stream_at_def finished_def)
  next
    case RecvFails
    with nf show ?thesis by simp
  qed
  from finished_past_end[OF this t1] show ?thesis .
qed

lemma arrival_step_same_sink:
  assumes acc: "subscribe_all cfg \<or> sid \<in> set (subs cfg)"
    and rel: "same_sink m cfg sid s s'" and ft: "fits m a"
  shows "same_sink m cfg sid (snd (step cfg (arrival_event sid a) s))
      (snd (step cfg (arrival_event sid a) s'))"
proof -
  let ?st = "stream_at sid (streams s)" and ?st' = "stream_at sid (streams s')"
  let ?s1 = "snd (step cfg (arrival_event sid a) s)"
  let ?s1' = "snd (step cfg (arrival_event sid a) s')"
  from rel have co: "cout s' = cout s" and dd: "dd_state cfg sid s" and dd': "dd_state cfg sid s'"
    and em: "(streams s' = []) = (streams s = [])" and sd: "same_data m ?st ?st'"
    and te: "tail_empty m ?st" and te': "tail_empty m ?st'"
    by (simp_all add: same_sink_def)
  from ft have ne: "\<forall>f\<in>set (frames_of [a]). fst f \<noteq> - 1" by (simp add: fits_def)
  note d1 = arrival_step_dd_state[OF acc dd ne] arrival_step_dd_state[OF acc dd' ne]
  note t1 = arrival_step_tail_empty[OF acc dd te ft] arrival_step_tail_empty[OF acc dd' te' ft]
  have "cout ?s1' = cout ?s1 \<and> ((streams ?s1' = []) = (streams ?s1 = [])) \<and>
    same_data m (stream_at sid (streams ?s1)) (stream_at sid (streams ?s1'))"
  proof (cases a)
    case (Frame f)
    obtain seq flags payload now where f: "f = (seq, flags, payload, now)" by (cases f) auto
    from ft Frame have fr: "flags AND FLAG_FINAL \<noteq> 0 \<longrightarrow> m \<le> seq"
      "m < seq \<longrightarrow> take PAYLOAD_SIZE payload = []" and n: "seq \<noteq> - 1"
      by (auto simp: f fits_Frame)
    from n f have n': "fst f \<noteq> - 1" by simp
    let ?o = "fst (open_sink cfg sid True ?st)" and ?o' = "fst (open_sink cfg sid True ?st')"
    have sdo: "same_data m ?o ?o'"
    proof (cases "streams s = []")
      case True
      with em have "?st' = ?st" by (simp add: stream_at_def)
      then show ?thesis by (simp add: same_data_refl)
    next
      case False
      with em have "streams s' \<noteq> []" by simp
      from open_sink_dd(3)[OF dd False] open_sink_dd(3)[OF dd' this] sd show ?thesis by simp
    qed
    note i = ingest_same_data[OF sdo _ _ open_sink_dd(1)[OF dd] open_sink_dd(1)[OF dd'] n fr,
        of "single_to_stdout cfg" sid now "cout s"]
    from te te' have "tail_empty m ?o" "tail_empty m ?o'" by (simp_all add: tail_empty_open_sink)
    from i[OF this] co
    have "fst (after_frame cfg sid f s') = fst (after_frame cfg sid f s)"
      "same_data m (snd (after_frame cfg sid f s)) (snd (after_frame cfg sid f s'))"
      by (simp_all add: after_frame_def f)
    with step_dd_state(2,3)[OF acc dd n'] step_dd_state(2,3)[OF acc dd' n'] Frame
    show ?thesis by simp
  next
    case (TimeoutAt now)
    from step_timeout_stream[OF dd, of now] obtain x where
      x: "stream_at sid (streams (snd (step cfg (RecvTimeout now) s))) = ?st\<lparr>final_seen := x\<rparr>"
      by blast
    from step_timeout_stream[OF dd', of now] obtain y where
      y: "stream_at sid (streams (snd (step cfg (RecvTimeout now) s'))) = ?st'\<lparr>final_seen := y\<rparr>"
      by blast
    from step_timeout_dd_state(2,3)[OF dd, of now] step_timeout_dd_state(2,3)[OF dd', of now]
      co em sd x y TimeoutAt
    show ?thesis by simp
  next
    case RecvFails
    with co em sd show ?thesis by (simp add: step_def)
  qed
  with d1 t1 show ?thesis by (simp add: same_sink_def)
qed

lemma same_sink_bytes:
  "same_sink m cfg sid s s' \<Longrightarrow> sink_bytes cfg sid s' = sink_bytes cfg sid s"
  by (simp add: same_sink_def sink_bytes_def same_data_def)

lemma past_end_step:
  assumes acc: "subscribe_all cfg \<or> sid \<in> set (subs cfg)"
    and pe: "past_end m cfg sid s" and ft: "fits m a"
  shows "past_end m cfg sid (snd (step cfg (arrival_event sid a) s)) \<and>
    sink_bytes cfg sid (snd (step cfg (arrival_event sid a) s)) = sink_bytes cfg sid s"
proof -
  let ?st = "stream_at sid (streams s)"
  let ?s1 = "snd (step cfg (arrival_event sid a) s)"
  from pe have dd: "dd_state cfg sid s" and nn: "streams s \<noteq> []" and te: "tail_empty m ?st"
    and past: "m < expected ?st" by (simp_all add: past_end_def)
  from ft have ne: "\<forall>f\<in>set (frames_of [a]). fst f \<noteq> - 1" by (simp add: fits_def)
  note d1 = arrival_step_dd_state[OF acc dd ne]
  note n1 = arrival_step_nonempty[OF acc dd ne nn]
  note t1 = arrival_step_tail_empty[OF acc dd te ft]
  have "m < expected (stream_at sid (streams ?s1)) \<and> sink_bytes cfg sid ?s1 = sink_bytes cfg sid s"
  proof (cases a)
    case (Frame f)
    obtain seq flags payload now where f: "f = (seq, flags, payload, now)" by (cases f) auto
    from ft Frame have fr: "m < seq \<longrightarrow> take PAYLOAD_SIZE payload = []" and n: "seq \<noteq> - 1"
      by (auto simp: f fits_Frame)
    from n f have n': "fst f \<noteq> - 1" by simp
    from open_sink_dd(3)[OF dd nn] have o: "fst (open_sink cfg sid True ?st) = ?st" .
    from dd nn have ds: "dd_stream ?st" by (simp add: dd_state_def)
    from ingest_quiet[OF te ds past n fr, of "single_to_stdout cfg" sid flags now "cout s"]
    have "fst (after_frame cfg sid f s) = cout s"
      "written (fout (snd (after_frame cfg sid f s))) = written (fout ?st)"
      "m < expected (snd (after_frame cfg sid f s))"
      by (simp_all add: after_frame_def f o)
    with step_dd_state(2,3)[OF acc dd n'] Frame show ?thesis
      by (simp add: sink_bytes_def)
  next
    case (TimeoutAt now)
    from step_timeout_stream[OF dd, of now] obtain x where
      "stream_at sid (streams (snd (step cfg (RecvTimeout now) s))) = ?st\<lparr>final_seen := x\<rparr>"
      by blast
    with step_timeout_dd_state(3)[OF dd, of now] past TimeoutAt show ?thesis
      by (simp add: sink_bytes_def)
  next
    case RecvFails
    with past show ?thesis by (simp add: step_def sink_bytes_def)
  qed
  with d1 n1 t1 show ?thesis by (simp add: past_end_def)
qed

lemma past_end_run:
  assumes acc: "subscribe_all cfg \<or> sid \<in> set (subs cfg)"
    and pe: "past_end m cfg sid s" and ft: "\<forall>a\<in>set as. fits m a"
  shows "sink_bytes cfg sid (snd (run_loop cfg (map (arrival_event sid) as) s)) = sink_bytes cfg sid s"
  using pe ft
proof (induction as arbitrary: s)
  case Nil
  then show ?case by simp
next
  case (Cons a as)
  obtain brk s1 where st: "step cfg (arrival_event sid a) s = (brk, s1)" by force
  from Cons.prems(2) have f1: "fits m a" and f2: "\<forall>a\<in>set as. fits m a" by simp_all
  from past_end_step[OF acc Cons.prems(1) f1] st
  have p1: "past_end m cfg sid s1" and b1: "sink_bytes cfg sid s1 = sink_bytes cfg sid s" by simp_all
  from Cons.IH[OF p1 f2] b1 show ?case by (simp add: st)
qed

lemma same_sink_run:
  assumes acc: "subscribe_all cfg \<or> sid \<in> set (subs cfg)"
    and rel: "same_sink m cfg sid s s'" and nn: "streams s \<noteq> []"
    and ft: "\<forall>a\<in>set as. fits m a"
  shows "sink_bytes cfg sid (snd (run_loop cfg (map (arrival_event sid) as) s'))
       = sink_bytes cfg sid (snd (run_loop cfg (map (arrival_event sid) as) s))"
  using rel nn ft
proof (induction as arbitrary: s s')
  case Nil
  then show ?case by (simp add: same_sink_bytes)
next
  case (Cons a as)
  obtain brk s1 where st: "step cfg (arrival_event sid a) s = (brk, s1)" by force
  obtain brk' s1' where st': "step cfg (arrival_event sid a) s' = (brk', s1')" by force
  from Cons.prems(3) have f1: "fits m a" and f2: "\<forall>a\<in>set as. fits m a" by simp_all
  from f1 have ne: "\<forall>f\<in>set (frames_of [a]). fst f \<noteq> - 1" by (simp add: fits_def)
  from Cons.prems(1) have dd: "dd_state cfg sid s" and dd': "dd_state cfg sid s'"
    and te: "tail_empty m (stream_at sid (streams s))"
    and te': "tail_empty m (stream_at sid (streams s'))"
    and em: "(streams s' = []) = (streams s = [])"
    by (simp_all add: same_sink_def)
  from arrival_step_same_sink[OF acc Cons.prems(1) f1] st st'
  have r1: "same_sink m cfg sid s1 s1'" by simp
  from arrival_step_nonempty[OF acc dd ne Cons.prems(2)] st have n1: "streams s1 \<noteq> []" by simp
  from r1 n1 have n1': "streams s1' \<noteq> []" by (simp add: same_sink_def)
  from r1 have ex: "expected (stream_at sid (streams s1')) = expected (stream_at sid (streams s1))"
    by (simp add: same_sink_def same_data_def)
  note b1 = same_sink_bytes[OF r1]
  show ?case
  proof (cases "a = RecvFails")
    case True
    with st st' b1 show ?thesis by (simp add: step_def)
  next
    case False
    show ?thesis
    proof (cases brk; cases brk')
      assume "brk" "brk'"
      with st st' b1 show ?thesis by simp
    next
      assume "\<not> brk" "\<not> brk'"
      with Cons.IH[OF r1 n1 f2] st st' show ?thesis by simp
    next
      assume b: "brk" "\<not> brk'"
      from arrival_step_brk_past[OF acc dd te f1 False] st b(1)
      have "m < expected (stream_at sid (streams s1))" by simp
      with r1 n1' ex have "past_end m cfg sid s1'" by (simp add: past_end_def same_sink_def)
      from past_end_run[OF acc this f2] b st st' b1 show ?thesis by simp
    next
      assume b: "\<not> brk" "brk'"
      from arrival_step_brk_past[OF acc dd' te' f1 False] st' b(2)
      have "m < expected (stream_at sid (streams s1'))" by simp
      with r1 n1 ex have "past_end m cfg sid s1" by (simp add: past_end_def same_sink_def)
      from past_end_run[OF acc this f2] b st st' b1 show ?thesis by simp
    qed
  qed
qed

lemma data_ends_at_append:
  "data_ends_at m (fs @ gs) \<longleftrightarrow> data_ends_at m fs \<and> data_ends_at m gs"
  by (auto simp: data_ends_at_def)

lemma fits_all:
  "(\<forall>a\<in>set as. fits m a) \<longleftrightarrow>
     data_ends_at m (frames_of as) \<and> (\<forall>f\<in>set (frames_of as). fst f \<noteq> - 1)"
proof (induction as)
  case Nil
  then show ?case by (simp add: data_ends_at_def)
next
  case (Cons a as)
  have "frames_of (a # as) = frames_of [a] @ frames_of as" by (cases a) simp_all
  with Cons show ?case by (auto simp: fits_def data_ends_at_append)
qed

lemma run_arrivals_tail_empty:
  assumes acc: "subscribe_all cfg \<or> sid \<in> set (subs cfg)"
    and dd: "dd_state cfg sid s" and te: "tail_empty m (stream_at sid (streams s))"
    and ft: "\<forall>a\<in>set as. fits m a"
  shows "tail_empty m (stream_at sid (streams (snd (run_loop cfg (map (arrival_event sid) as) s))))"
  using dd te ft
proof (induction as arbitrary: s)
  case Nil
  then show ?case by simp
next
  case (Cons a as)
  obtain brk s1 where st: "step cfg (arrival_event sid a) s = (brk, s1)" by force
  from Cons.prems(3) have f1: "fits m a" and f2: "\<forall>a\<in>set as. fits m a" by simp_all
  from f1 have ne: "\<forall>f\<in>set (frames_of [a]). fst f \<noteq> - 1" by (simp add: fits_def)
  from arrival_step_dd_state[OF acc Cons.prems(1) ne] st have d1: "dd_state cfg sid s1" by simp
  from arrival_step_tail_empty[OF acc Cons.prems(1,2) f1] st
  have t1: "tail_empty m (stream_at sid (streams s1))" by simp
  from Cons.IH[OF d1 t1 f2] t1 show ?case by (simp add: st)
qed

lemma run_arrivals_split:
  "run_loop cfg (map g (as @ bs)) s =
     (if fst (run_loop cfg (map g as) s) then (True, snd (run_loop cfg (map g as) s))
      else run_loop cfg (map g bs) (snd (run_loop cfg (map g as) s)))"
  by (simp add: run_loop_append split: prod.splits)

lemma final_marker_again:
  "final_seen st \<Longrightarrow> final_seq st = k \<Longrightarrow>
   st\<lparr>final_seen := True, final_seq := k, final_at := v\<rparr> = st\<lparr>final_at := v\<rparr>"
  by (cases st) simp

text \<open>
  Claim C7, as the code has it. The receiver takes frames of one accepted stream, receive
  timeouts and errors of \<open>recv\<close> in any order. A frame with sequence \<open>k\<close> and flags \<open>fl\<close> is
  delivered and, at any later point, a second copy of it whose payload \<open>pl'\<close> may differ.
  The bytes in the sink are those of the run without the second copy, provided that no
  frame delivered before the second copy has the largest sequence number \<open>2^32 - 1\<close> (after
  which \<open>expected\<close> wraps around) and that one of the following holds.
  \<^item> The frame is not marked final.
  \<^item> The data of the stream ends at some sequence \<open>m\<close>: no frame of the run that is marked
    final lies before \<open>m\<close>, every frame after \<open>m\<close> has an empty payload, and no frame after
    the second copy has the largest sequence number either.
  \<^item> After the first copy there is no receive timeout, and between the two copies no frame
    marked final with another sequence number.

  A second copy of a final frame that is not stale records the final marker anew
  (\<open>final_seen\<close>, \<open>final_seq\<close>, \<open>final_at\<close>); the last two conditions are what keeps this
  from moving the end of the stream or its timeout.
\<close>

theorem duplicate_frame_idempotent:
  assumes acc: "subscribe_all cfg \<or> sid \<in> set (subs cfg)"
    and nowrap: "\<forall>f\<in>set (frames_of (xs @ Frame (k, fl, pl, t) # ys)). fst f \<noteq> - 1"
    and cond: "fl AND FLAG_FINAL = 0
      \<or> (data_ends_at m (frames_of (xs @ Frame (k, fl, pl, t) # ys @ zs)) \<and>
         (\<forall>f\<in>set (frames_of zs). fst f \<noteq> - 1))
      \<or> ((\<forall>a\<in>set (ys @ zs). \<not> is_timeout a) \<and>
         (\<forall>f\<in>set (frames_of ys). fst (snd f) AND FLAG_FINAL \<noteq> 0 \<longrightarrow> fst f = k))"
  shows "sink_bytes cfg sid (snd (run_loop cfg (map (arrival_event sid)
        (xs @ Frame (k, fl, pl, t) # ys @ Frame (k, fl, pl', t') # zs)) receiver_init))
     = sink_bytes cfg sid (snd (run_loop cfg (map (arrival_event sid)
        (xs @ Frame (k, fl, pl, t) # ys @ zs)) receiver_init))"
proof -
  let ?A = "xs @ Frame (k, fl, pl, t) # ys"
  let ?d = "Frame (k, fl, pl', t')"
  let ?run = "\<lambda>as. run_loop cfg (map (arrival_event sid) as)"
  let ?S = "snd (?run ?A receiver_init)"
  let ?st = "stream_at sid (streams ?S)"
  have l: "xs @ Frame (k, fl, pl, t) # ys @ ?d # zs = ?A @ ?d # zs" by simp
  have r: "xs @ Frame (k, fl, pl, t) # ys @ zs = ?A @ zs" by simp
  show ?thesis
  proof (cases "fst (?run ?A receiver_init)")
    case True
    then show ?thesis
      unfolding l r by (simp only: run_arrivals_split if_True)
  next
    case False
    note init = dd_full_init[OF acc]
    from init have init': "dd_state cfg sid receiver_init" by (simp add: dd_full_def)
    from run_arrivals_dd_full[OF acc init nowrap False] have dS: "dd_full cfg sid ?S" .
    then have dsS: "dd_state cfg sid ?S" by (simp add: dd_full_def)
    from nowrap have k: "k \<noteq> - 1" by (simp add: frames_of_append)
    have seen0: "seen_inv k 0 ?st \<and> streams ?S \<noteq> []"
      by (rule run_arrivals_seen_new[OF acc init' nowrap _ False]) simp
    then have nS: "streams ?S \<noteq> []" by simp
    with dsS have sS: "streams ?S = [(sid, ?st)]" by (simp add: dd_state_def)
    let ?dst = "if k < expected ?st \<or> fl AND FLAG_FINAL = 0 then ?st
          else ?st\<lparr>final_seen := True, final_seq := k, final_at := t'\<rparr>"
    from duplicate_frame_step[OF acc dS nS, of k 0 fl pl' t'] seen0 obtain msgs where
      st: "step cfg (frame_event sid (k, fl, pl', t')) ?S =
        (False, ?S\<lparr>streams := [(sid, ?dst)], cerr := cerr ?S @ msgs\<rparr>)" by blast
    let ?S' = "?S\<lparr>streams := [(sid, ?dst)], cerr := cerr ?S @ msgs\<rparr>"
    have "?run (?d # zs) ?S = ?run zs ?S'"
      using st by simp
    with False have L: "?run (?A @ ?d # zs) receiver_init = ?run zs ?S'"
      by (simp only: run_arrivals_split if_False)
    from False have R: "?run (?A @ zs) receiver_init = ?run zs ?S"
      by (simp only: run_arrivals_split if_False)
    have "sink_bytes cfg sid (snd (?run zs ?S')) = sink_bytes cfg sid (snd (?run zs ?S))"
    proof (cases "k < expected ?st \<or> fl AND FLAG_FINAL = 0")
      case True
      with sS have "streams ?S' = streams ?S" "cout ?S' = cout ?S" by simp_all
      from run_cerr[OF this, of cfg "map (arrival_event sid) zs"]
      show ?thesis by (simp add: sink_bytes_def)
    next
      case nonstale: False
      then have fin: "fl AND FLAG_FINAL \<noteq> 0" and ge: "\<not> k < expected ?st" by simp_all
      from nonstale have dst: "?dst = ?st\<lparr>final_seen := True, final_seq := k, final_at := t'\<rparr>"
        by simp
      from cond fin consider
        (wf) "data_ends_at m (frames_of (xs @ Frame (k, fl, pl, t) # ys @ zs))"
          "\<forall>f\<in>set (frames_of zs). fst f \<noteq> - 1"
        | (quiet) "\<forall>a\<in>set (ys @ zs). \<not> is_timeout a"
          "\<forall>f\<in>set (frames_of ys). fst (snd f) AND FLAG_FINAL \<noteq> 0 \<longrightarrow> fst f = k"
        by blast
      then show ?thesis
      proof cases
        case wf
        from wf(1) have wA: "data_ends_at m (frames_of ?A)" and wz: "data_ends_at m (frames_of zs)"
          using data_ends_at_append[of m "frames_of ?A" "frames_of zs"]
          by (simp_all add: frames_of_append)
        from wA nowrap have fA: "\<forall>a\<in>set ?A. fits m a" unfolding fits_all by simp
        from wz wf(2) have fz: "\<forall>a\<in>set zs. fits m a" unfolding fits_all by simp
        from wA fin have mk: "m \<le> k" by (simp add: data_ends_at_def frames_of_append)
        have "tail_empty m (stream_at sid (streams receiver_init))"
          by (simp add: receiver_init_def stream_at_def tail_empty_new_stream)
        from run_arrivals_tail_empty[OF acc init' this fA] have tS: "tail_empty m ?st" .
        with mk have tS': "tail_empty m ?dst" by (simp add: tail_empty_def)
        have kk: "\<forall>f\<in>set (frames_of [?d]). fst f \<noteq> - 1" using k by simp
        from arrival_step_dd_state[OF acc dsS kk] st have dS': "dd_state cfg sid ?S'" by simp
        have "same_data m ?st ?dst" by (simp add: same_data_def)
        with dsS dS' tS tS' nS have "same_sink m cfg sid ?S ?S'"
          by (simp add: same_sink_def)
        from same_sink_run[OF acc this nS fz] show ?thesis .
      next
        case quiet
        from quiet(1) have qy: "\<forall>a\<in>set ys. \<not> is_timeout a" and qz: "\<forall>a\<in>set zs. \<not> is_timeout a"
          by simp_all
        have "seen_inv k fl ?st \<and> streams ?S \<noteq> []"
          by (rule run_arrivals_seen_new[OF acc init' nowrap _ False]) (simp add: qy quiet(2))
        with fin ge have "final_seen ?st" "final_seq ?st = k" by (simp_all add: seen_inv_def)
        from final_marker_again[OF this, of t'] dst have "?dst = ?st\<lparr>final_at := t'\<rparr>" by simp
        with same_but_final_atI[OF sS, where v=t' and c="cerr ?S @ msgs"]
        have "same_but_final_at sid ?S ?S'" by simp
        from same_but_final_at_sink[OF sim_arrivals[OF acc this qz], of cfg] show ?thesis .
      qed
    qed
    then show ?thesis unfolding l r L R .
  qed
qed

text \<open>
  An instance with the frames of the stream-id sender for a file of one byte: the marker
  2 arrives first, its timeout fires, the marker arrives again, and then the final chunk 1.
\<close>

theorem duplicate_frame_idempotent_witness:
  "sink_bytes cfg_one 42 (snd (run_loop cfg_one (map (arrival_event 42)
      [Frame (2, 1, [], 0), TimeoutAt 11000000000, Frame (2, 1, [], 12000000000),
       Frame (1, 1, [97], 13000000000)]) receiver_init))
   = sink_bytes cfg_one 42 (snd (run_loop cfg_one (map (arrival_event 42)
      [Frame (2, 1, [], 0), TimeoutAt 11000000000, Frame (1, 1, [97], 13000000000)])
      receiver_init))"
  using duplicate_frame_idempotent[where cfg=cfg_one and sid=42 and xs="[]" and k=2 and fl=1
      and pl="[]" and t=0 and ys="[TimeoutAt 11000000000]" and pl'="[]" and t'=12000000000
      and zs="[Frame (1, 1, [97], 13000000000)]" and m=1]
  by (simp add: cfg_one_def data_ends_at_def FLAG_FINAL_def)

text \<open>
  Claim C7 as stated fails for a final marker: the final frame 5 arrives, then a frame 3
  that is marked final too, then frames 1, 2 and 4. With a second copy of frame 5 after
  frame 3 the stream ends at 5 and all five bytes are written; without it the stream
  ends at 3, the file is closed there, and the bytes of frames 4 and 5 are lost.
\<close>

theorem duplicate_final_marker_changes_output:
  "sink_bytes cfg_all 42 (snd (run_loop cfg_all
      (map (frame_event 42)
        [(5, 1, [101], 0), (3, 1, [99], 1), (5, 1, [101], 2), (1, 0, [97], 3), (2, 0, [98], 4),
         (4, 0, [100], 5)])
      receiver_init)) = [97, 98, 99, 100, 101]
   \<and> sink_bytes cfg_all 42 (snd (run_loop cfg_all
      (map (frame_event 42)
        [(5, 1, [101], 0), (3, 1, [99], 1), (1, 0, [97], 3), (2, 0, [98], 4), (4, 0, [100], 5)])
      receiver_init)) = [97, 98, 99]"
  by (simp add: sink_bytes_def frame_event_def run_defs cfg_all_def)

text \<open>
  Why the third condition excludes receive timeouts: frames 1 and 3 (final) arrive, 2 is
  late. A second copy of frame 3 after 5 seconds renews \<open>final_at\<close>, so the timeout at 11
  seconds does not fire, the stream ends at 3 and frame 4 is not written; without the copy
  the timeout fires, the stream no longer ends, and frame 4 is written.
\<close>

lemma duplicate_final_marker_postpones_timeout:
  "sink_bytes cfg_all 42 (snd (run_loop cfg_all (map (arrival_event 42)
      [Frame (1, 0, [97], 0), Frame (3, 1, [99], 0), Frame (3, 1, [99], 5000000000),
       TimeoutAt 11000000000, Frame (2, 0, [98], 12000000000), Frame (4, 0, [100], 12000000000)])
      receiver_init)) = [97, 98, 99]
   \<and> sink_bytes cfg_all 42 (snd (run_loop cfg_all (map (arrival_event 42)
      [Frame (1, 0, [97], 0), Frame (3, 1, [99], 0),
       TimeoutAt 11000000000, Frame (2, 0, [98], 12000000000), Frame (4, 0, [100], 12000000000)])
      receiver_init)) = [97, 98, 99, 100]"
  by (simp add: sink_bytes_def frame_event_def run_defs cfg_all_def)


text \<open>
  The second condition holds of what the stream-id sender puts on the wire, whatever the
  file (of fewer than 4294967290 chunks, so that the sequence numbers do not wrap around)
  and however the run ends: the frames of the loop are numbered from 1, only the last of them can be
  marked final, and the markers that follow are empty. It then holds of every delivery of
  these datagrams, in any order, with losses and with repetitions.
\<close>

lemma send_loop_frames:
  "send_loop env sid i f seq acts = (r, seq', acts') \<Longrightarrow>
   \<exists>fs. acts' = acts @ map (\<lambda>x. SendTo (frame_wire sid x)) fs \<and>
        map fst fs = map (\<lambda>j. seq + of_nat j) [0..<length fs] \<and>
        seq' = seq + of_nat (length fs) \<and>
        (\<forall>j<length fs. Suc j < length fs \<longrightarrow> fst (snd (fs ! j)) = 0) \<and>
        length fs \<le> Suc (length (remaining f) div PAYLOAD_SIZE)"
proof (induction env sid i f seq acts arbitrary: r seq' acts' rule: send_loop.induct)
  case (1 env sid i infile seq acts)
  obtain chunk infile' where rd: "(chunk, infile') = ifstream_read PAYLOAD_SIZE infile"
    by (metis surj_pair)
  define is_final where "is_final = (length chunk < PAYLOAD_SIZE \<or> eofbit infile')"
  define pkt where "pkt = wire sid seq (if is_final then FLAG_FINAL else 0) chunk"
  define x :: "u32 \<times> u32 \<times> byte list \<times> int"
    where "x = (seq, if is_final then FLAG_FINAL else 0, chunk, 0)"
  have px: "pkt = frame_wire sid x" by (simp add: pkt_def x_def frame_wire_def)
  have unf: "send_loop env sid i infile seq acts =
     (if interrupted env i then (Suc i, seq, acts)
      else if length chunk \<le> 0 then (Suc i, seq, acts)
      else if sendto_fails env i then (Suc i, seq, acts)
      else if is_final then (Suc i, seq + 1, acts @ [SendTo pkt])
      else send_loop env sid (Suc i) infile' (seq + 1) (acts @ [SendTo pkt]))"
    by (subst send_loop.simps) (simp add: rd[symmetric] Let_def is_final_def pkt_def)
  have one: "\<exists>fs. acts @ [SendTo pkt] = acts @ map (\<lambda>x. SendTo (frame_wire sid x)) fs \<and>
        map fst fs = map (\<lambda>j. seq + of_nat j) [0..<length fs] \<and>
        seq + 1 = seq + of_nat (length fs) \<and>
        (\<forall>j<length fs. Suc j < length fs \<longrightarrow> fst (snd (fs ! j)) = 0) \<and>
        length fs \<le> Suc (length (remaining infile) div PAYLOAD_SIZE)"
    by (rule exI[of _ "[x]"]) (simp add: px x_def)
  have none: "\<exists>fs. acts = acts @ map (\<lambda>x. SendTo (frame_wire sid x)) fs \<and>
        map fst fs = map (\<lambda>j. seq + of_nat j) [0..<length fs] \<and>
        seq = seq + of_nat (length fs) \<and>
        (\<forall>j<length fs. Suc j < length fs \<longrightarrow> fst (snd (fs ! j)) = 0) \<and>
        length fs \<le> Suc (length (remaining infile) div PAYLOAD_SIZE)"
    by (rule exI[of _ "[]"]) simp
  show ?case
  proof (cases "\<not> interrupted env i \<and> \<not> length chunk \<le> 0 \<and> \<not> sendto_fails env i \<and> \<not> is_final")
    case False
    with "1.prems" unf one none show ?thesis by (auto split: if_splits)
  next
    case True
    with "1.prems" unf have rec: "send_loop env sid (Suc i) infile' (seq + 1) (acts @ [SendTo pkt]) = (r, seq', acts')"
      by simp
    from True have c: "\<not> interrupted env i" "\<not> length chunk \<le> 0" "\<not> sendto_fails env i" "\<not> is_final"
      by simp_all
    from c(4) rd have full: "PAYLOAD_SIZE \<le> length (remaining infile)"
      "remaining infile' = drop PAYLOAD_SIZE (remaining infile)"
      by (auto simp: is_final_def ifstream_read_def split: if_splits)
    from "1.IH"[OF c(1) rd c(2) is_final_def pkt_def c(3) c(4) rec]
    obtain fs where fs: "acts' = (acts @ [SendTo pkt]) @ map (\<lambda>x. SendTo (frame_wire sid x)) fs"
      "map fst fs = map (\<lambda>j. seq + 1 + of_nat j) [0..<length fs]"
      "seq' = seq + 1 + of_nat (length fs)"
      "\<forall>j<length fs. Suc j < length fs \<longrightarrow> fst (snd (fs ! j)) = 0"
      "length fs \<le> Suc (length (remaining infile') div PAYLOAD_SIZE)"
      by blast
    have m: "map (\<lambda>j. seq + of_nat j) [0..<length (x # fs)]
      = seq # map (\<lambda>j. seq + 1 + of_nat j) [0..<length fs]"
      by (simp add: upt_conv_Cons map_Suc_upt[symmetric] del: upt_Suc)
    have fl: "\<forall>j<length (x # fs). Suc j < length (x # fs) \<longrightarrow> fst (snd ((x # fs) ! j)) = 0"
    proof (intro allI impI)
      fix j assume j: "j < length (x # fs)" "Suc j < length (x # fs)"
      show "fst (snd ((x # fs) ! j)) = 0"
      proof (cases j)
        case 0
        with c(4) show ?thesis by (simp add: x_def)
      next
        case (Suc j')
        with j fs(4) show ?thesis by simp
      qed
    qed
    have "length (remaining infile) div PAYLOAD_SIZE
      = Suc (length (remaining infile') div PAYLOAD_SIZE)"
      using full le_div_geq[of PAYLOAD_SIZE "length (remaining infile)"]
      by (simp add: PAYLOAD_SIZE_def)
    with fs(5) have len: "length (x # fs) \<le> Suc (length (remaining infile) div PAYLOAD_SIZE)"
      by simp
    have "acts' = acts @ map (\<lambda>x. SendTo (frame_wire sid x)) (x # fs)"
      using fs(1) by (simp add: px)
    moreover have "map fst (x # fs) = map (\<lambda>j. seq + of_nat j) [0..<length (x # fs)]"
      unfolding m using fs(2) by (simp add: x_def)
    moreover have "seq' = seq + of_nat (length (x # fs))"
      using fs(3) by (simp add: add.assoc add.commute)
    ultimately show ?thesis using fl len by blast
  qed
qed

lemma frame_event_wire:
  "frame_event sid f = Datagram (frame_wire sid f) (snd (snd (snd f))) True"
  by (cases f) (simp add: frame_event_def frame_wire_def)

lemma datagrams_append: "datagrams (a @ b) = datagrams a @ datagrams b"
  by (induction a rule: datagrams.induct) simp_all

lemma datagrams_SendTo: "datagrams (map (\<lambda>x. SendTo (g x)) fs) = map g fs"
  by (induction fs) simp_all

lemma datagrams_final_markers:
  "datagrams (final_markers sid seq n) = replicate n (wire sid seq FLAG_FINAL [])"
  by (induction n) simp_all

lemma unat_of_nat_u32: "a < 4294967296 \<Longrightarrow> unat (of_nat a :: u32) = a"
  by (simp add: unat_of_nat)

lemma unat_minus_one_u32: "unat (- 1 :: u32) = 4294967295"
  by (simp add: unsigned_minus_1_eq_mask mask_eq_exp_minus_1)

lemma sender_frames_data_end:
  assumes small: "length file div PAYLOAD_SIZE < 4294967290"
  shows "\<exists>fs m. datagrams (sender_main env sid file) = map (frame_wire sid) fs \<and>
    data_ends_at m fs \<and> (\<forall>f\<in>set fs. fst f \<noteq> - 1)"
proof -
  obtain reads seq acts where sl: "send_loop env sid 0 (ifstream_of file) 1 [] = (reads, seq, acts)"
    by (metis surj_pair)
  from send_loop_frames[OF sl] obtain fs where
    acts: "acts = map (\<lambda>x. SendTo (frame_wire sid x)) fs"
    and seqs: "map fst fs = map (\<lambda>j. 1 + of_nat j) [0..<length fs]"
    and seq: "seq = 1 + of_nat (length fs)"
    and fl: "\<forall>j<length fs. Suc j < length fs \<longrightarrow> fst (snd (fs ! j)) = 0"
    and len: "length fs \<le> Suc (length file div PAYLOAD_SIZE)"
    by (auto simp: ifstream_of_def)
  let ?n = "length fs"
  let ?m = "of_nat ?n :: u32"
  let ?mk = "(seq, FLAG_FINAL, [], 0) :: u32 \<times> u32 \<times> byte list \<times> int"
  let ?c = "if interrupted env reads then Suc (Suc (Suc (Suc 0))) else Suc (Suc (Suc 0))"
  let ?all = "fs @ replicate ?c ?mk"
  from len small have n: "?n < 4294967291" by simp
  have um: "unat ?m = ?n" using n by (simp add: unat_of_nat_u32)
  have sq: "seq = of_nat (Suc ?n)" using seq by simp
  have us: "unat seq = Suc ?n" unfolding sq using n by (intro unat_of_nat_u32) simp
  have mw: "frame_wire sid ?mk = wire sid seq FLAG_FINAL []" by (simp add: frame_wire_def)
  have dg: "datagrams (sender_main env sid file) = map (frame_wire sid) ?all"
    by (simp add: sender_main_def sl acts datagrams_append datagrams_SendTo
        datagrams_final_markers mw numeral_3_eq_3)
  have inloop: "(fst (snd x) AND FLAG_FINAL \<noteq> 0 \<longrightarrow> ?m \<le> fst x) \<and>
      (?m < fst x \<longrightarrow> fst (snd (snd x)) = []) \<and> fst x \<noteq> - 1" if x: "x \<in> set fs" for x
  proof -
    from x obtain j where j: "j < ?n" "fs ! j = x" by (auto simp: in_set_conv_nth)
    from seqs have "map fst fs ! j = map (\<lambda>j. 1 + of_nat j) [0..<length fs] ! j" by simp
    with j have "fst x = 1 + of_nat j" by simp
    then have fx: "fst x = of_nat (Suc j)" by simp
    have ux: "unat (fst x) = Suc j" unfolding fx using j(1) n by (intro unat_of_nat_u32) simp
    have a: "fst (snd x) AND FLAG_FINAL \<noteq> 0 \<longrightarrow> ?m \<le> fst x"
    proof
      assume "fst (snd x) AND FLAG_FINAL \<noteq> 0"
      then have "fst (snd (fs ! j)) \<noteq> 0" using j(2) by auto
      with fl j(1) have "\<not> Suc j < ?n" by blast
      with j(1) have "Suc j = ?n" by simp
      then show "?m \<le> fst x" by (simp add: word_le_nat_alt um ux)
    qed
    have b: "\<not> ?m < fst x" using j(1) by (simp add: word_less_nat_alt um ux)
    have c: "fst x \<noteq> - 1"
    proof
      assume "fst x = - 1"
      then have "unat (fst x) = 4294967295" by (simp add: unat_minus_one_u32)
      with ux j(1) n show False by simp
    qed
    from a b c show ?thesis by simp
  qed
  have marker: "?m \<le> seq \<and> seq \<noteq> - 1"
  proof
    show "?m \<le> seq" by (simp add: word_le_nat_alt um us)
    show "seq \<noteq> - 1"
    proof
      assume "seq = - 1"
      then have "unat seq = 4294967295" by (simp add: unat_minus_one_u32)
      with us n show False by simp
    qed
  qed
  have "data_ends_at ?m ?all \<and> (\<forall>f\<in>set ?all. fst f \<noteq> - 1)"
    using inloop marker by (auto simp: data_ends_at_def)
  with dg show ?thesis by blast
qed

lemma data_ends_at_deliveries:
  assumes "data_ends_at m fs" and "\<forall>f\<in>set fs. fst f \<noteq> - 1"
    and "\<forall>g\<in>set gs. \<exists>f\<in>set fs. frame_wire sid g = frame_wire sid f"
  shows "data_ends_at m gs \<and> (\<forall>g\<in>set gs. fst g \<noteq> - 1)"
proof -
  have eq: "fst g = fst f \<and> fst (snd g) = fst (snd f) \<and> fst (snd (snd g)) = fst (snd (snd f))"
    if "frame_wire sid g = frame_wire sid f" for g f :: "u32 \<times> u32 \<times> byte list \<times> int"
  proof -
    from that have w: "wire sid (fst g) (fst (snd g)) (fst (snd (snd g)))
      = wire sid (fst f) (fst (snd f)) (fst (snd (snd f)))" by (simp add: frame_wire_def)
    from arg_cong[OF w, of "\<lambda>d. ntohl_at (drop 4 d)"] have 1: "fst g = fst f"
      by (simp add: ntohl_seq_wire)
    from arg_cong[OF w, of "\<lambda>d. ntohl_at (drop 8 d)"] have 2: "fst (snd g) = fst (snd f)"
      by (simp add: wire_def length_htonl_bytes ntohl_at_htonl_bytes)
    from arg_cong[OF w, of "drop 12"] have 3: "fst (snd (snd g)) = fst (snd (snd f))"
      by (simp add: wire_def length_htonl_bytes)
    from 1 2 3 show ?thesis by simp
  qed
  have "(fst (snd g) AND FLAG_FINAL \<noteq> 0 \<longrightarrow> m \<le> fst g) \<and>
      (m < fst g \<longrightarrow> fst (snd (snd g)) = []) \<and> fst g \<noteq> - 1" if g: "g \<in> set gs" for g
  proof -
    from g assms(3) obtain f where f: "f \<in> set fs" "frame_wire sid g = frame_wire sid f" by blast
    note e = eq[OF f(2)]
    from assms(1,2) f(1) e show ?thesis by (simp add: data_ends_at_def)
  qed
  then show ?thesis by (simp add: data_ends_at_def)
qed


subsection \<open>The programs with the 8-byte header\<close>

declare flush_v1.simps [simp del]

text \<open>
  The receiver without stream ids handles the finalization timeout as follows: the tick
  reports \<open>expected\<close>, the final sequence and the number of buffered frames, and leaves the
  loop. For the frames 1, 2 and 4 (final) with 3 missing, the file ends up closed with
  the bytes of frames 1 and 2, and the report is \<open>expected=3 final=4 buffered=1\<close>.
\<close>

lemma step_v1_timeout:
  assumes "final_seen_v1 s" and "elapsed_seconds now (final_at_v1 s) > tmo"
  shows "step_v1 tmo (RecvTimeout now) s =
    (True, s\<lparr>cerr_v1 := cerr_v1 s @
       [TimeoutMissing (expected_v1 s) (final_seq_v1 s) (card (dom (buffer_v1 s)))]\<rparr>)"
  using assms by (simp add: step_v1_def)

lemma receiver_v1_timeout_reports_gap:
  "receiver_main_v1 ''out.mp4'' True 10
     [Datagram (wire_v1 1 0 [97]) 0 True, Datagram (wire_v1 2 0 [98]) 1000000000 True,
      Datagram (wire_v1 4 1 [100]) 2000000000 True, RecvTimeout 3000000000,
      RecvTimeout 13000000000]
   = Returned \<lparr>expected_v1 = 3, buffer_v1 = [4 \<mapsto> [100]], final_seen_v1 = True, final_seq_v1 = 4,
       final_at_v1 = 2000000000, to_file_v1 = True,
       fout_v1 = \<lparr>is_open = False, failed = False, written = [97, 98]\<rparr>, cout_v1 = [],
       cerr_v1 = [FinalSeen 4, TimeoutMissing 3 4 1]\<rparr>"
  by (simp add: receiver_main_v1_def receiver_init_v1_def step_v1_def on_datagram_v1_def
      wire_v1_def htonl_bytes_def MAX_PKT_v1_def HDR_LEN_v1_def PAYLOAD_SIZE_def outptr_write_def
      ofstream_open_def closed_ofstream_def ofstream_write_def ofstream_close_def close_v1_def
      FLAG_FINAL_def elapsed_seconds_def flush_v1.simps)

text \<open>
  The sender without stream ids: run without interruption or send error, its loop always
  returns, the last frame of the loop is marked final, and the three markers that follow
  repeat the sequence number of that frame.
\<close>

lemma send_loop_v1_ends_with_final:
  assumes quiet: "\<forall>k. \<not> interrupted env k" "\<forall>i. \<not> sendto_fails env i"
    and good: "\<not> eofbit f" "\<not> failbit f"
  shows "\<exists>r n ds chunk. send_loop_v1 env i f seq acts =
    Some (r, n, acts @ map SendTo ds @ [SendTo (wire_v1 n FLAG_FINAL chunk)])"
  using good
proof (induction "length (remaining f)" arbitrary: i f seq acts rule: less_induct)
  case less
  show ?case
  proof (cases "length (remaining f) < PAYLOAD_SIZE")
    case True
    with less.prems quiet
    have "send_loop_v1 env i f seq acts =
      Some (Suc i, seq, acts @ map SendTo [] @ [SendTo (wire_v1 seq FLAG_FINAL (remaining f))])"
      by (subst send_loop_v1.simps) (simp add: ifstream_read_def FLAG_FINAL_def)
    then show ?thesis by blast
  next
    case False
    let ?f = "f\<lparr>remaining := drop PAYLOAD_SIZE (remaining f)\<rparr>"
    let ?pkt = "wire_v1 seq 0 (take PAYLOAD_SIZE (remaining f))"
    from False less.prems quiet
    have unf: "send_loop_v1 env i f seq acts = send_loop_v1 env (Suc i) ?f (seq + 1) (acts @ [SendTo ?pkt])"
      by (subst send_loop_v1.simps) (simp add: ifstream_read_def)
    from False have "length (remaining ?f) < length (remaining f)"
      by (simp add: PAYLOAD_SIZE_def)
    from less.hyps[OF this, of "Suc i" "seq + 1" "acts @ [SendTo ?pkt]"] less.prems
    obtain r n ds chunk where
      "send_loop_v1 env (Suc i) ?f (seq + 1) (acts @ [SendTo ?pkt]) =
        Some (r, n, (acts @ [SendTo ?pkt]) @ map SendTo ds @ [SendTo (wire_v1 n FLAG_FINAL chunk)])"
      by auto
    with unf have "send_loop_v1 env i f seq acts =
        Some (r, n, acts @ map SendTo (?pkt # ds) @ [SendTo (wire_v1 n FLAG_FINAL chunk)])"
      by simp
    then show ?thesis by blast
  qed
qed

lemma sender_main_v1_repeats_final_frame:
  assumes quiet: "\<forall>k. \<not> interrupted env k" "\<forall>i. \<not> sendto_fails env i"
  shows "\<exists>n ds chunk. sender_main_v1 env file =
    Some (map SendTo ds @
      [SendTo (wire_v1 n FLAG_FINAL chunk),
       SendTo (wire_v1 n FLAG_FINAL []), SleepMs 200,
       SendTo (wire_v1 n FLAG_FINAL []), SleepMs 200,
       SendTo (wire_v1 n FLAG_FINAL []), SleepMs 200])"
proof -
  from send_loop_v1_ends_with_final[OF quiet, of "ifstream_of file" 0 1 "[]"]
  obtain r n ds chunk where
    "send_loop_v1 env 0 (ifstream_of file) 1 [] =
      Some (r, n, map SendTo ds @ [SendTo (wire_v1 n FLAG_FINAL chunk)])"
    by (auto simp: ifstream_of_def)
  with quiet have "sender_main_v1 env file =
    Some (map SendTo ds @
      [SendTo (wire_v1 n FLAG_FINAL chunk),
       SendTo (wire_v1 n FLAG_FINAL []), SleepMs 200,
       SendTo (wire_v1 n FLAG_FINAL []), SleepMs 200,
       SendTo (wire_v1 n FLAG_FINAL []), SleepMs 200])"
    by (simp add: sender_main_v1_def numeral_3_eq_3)
  then show ?thesis by blast
qed

lemma sender_v1_repeats_final_sequence:
  "sender_main_v1 quiet_env [1, 2, 3] =
    Some [SendTo (wire_v1 1 1 [1, 2, 3]),
     SendTo (wire_v1 1 1 []), SleepMs 200,
     SendTo (wire_v1 1 1 []), SleepMs 200,
     SendTo (wire_v1 1 1 []), SleepMs 200]"
  by (simp add: sender_main_v1_def send_loop_v1.simps ifstream_of_def ifstream_read_def quiet_env_def
      PAYLOAD_SIZE_def FLAG_FINAL_def numeral_3_eq_3)

text \<open>
  For a file of exactly \<open>3 * 1200\<close> bytes this sender's fourth read meets the end of the
  file, so that sequence 4 is sent in the loop as a final frame without payload, and then
  three more times.
\<close>

lemma sender_main_v1_exact_multiple:
  assumes len: "length file = 3 * PAYLOAD_SIZE"
    and quiet: "\<forall>k. \<not> interrupted env k" "\<forall>i. \<not> sendto_fails env i"
  shows "sender_main_v1 env file =
    Some [SendTo (wire_v1 1 0 (take 1200 file)),
     SendTo (wire_v1 2 0 (take 1200 (drop 1200 file))),
     SendTo (wire_v1 3 0 (drop 2400 file)),
     SendTo (wire_v1 4 FLAG_FINAL []),
     SendTo (wire_v1 4 FLAG_FINAL []), SleepMs 200,
     SendTo (wire_v1 4 FLAG_FINAL []), SleepMs 200,
     SendTo (wire_v1 4 FLAG_FINAL []), SleepMs 200]"
proof -
  have full: "send_loop_v1 env i f seq acts =
      send_loop_v1 env (Suc i) (f\<lparr>remaining := drop PAYLOAD_SIZE (remaining f)\<rparr>) (seq + 1)
        (acts @ [SendTo (wire_v1 seq 0 (take PAYLOAD_SIZE (remaining f)))])"
    if "\<not> eofbit f" "\<not> failbit f" "PAYLOAD_SIZE \<le> length (remaining f)" for i f seq acts
    using that quiet by (subst send_loop_v1.simps) (simp add: ifstream_read_def)
  have last: "send_loop_v1 env i f seq acts = Some (Suc i, seq, acts @ [SendTo (wire_v1 seq FLAG_FINAL [])])"
    if "\<not> eofbit f" "\<not> failbit f" "remaining f = []" for i f seq acts
    using that quiet
    by (subst send_loop_v1.simps) (simp add: ifstream_read_def PAYLOAD_SIZE_def FLAG_FINAL_def)
  have "send_loop_v1 env 0 (ifstream_of file) 1 [] =
    Some (4, 4, [SendTo (wire_v1 1 0 (take 1200 file)),
     SendTo (wire_v1 2 0 (take 1200 (drop 1200 file))),
     SendTo (wire_v1 3 0 (drop 2400 file)),
     SendTo (wire_v1 4 FLAG_FINAL [])])"
    using len
    by (simp add: full last ifstream_of_def PAYLOAD_SIZE_def eval_nat_numeral(3)[symmetric])
  then show ?thesis
    using quiet by (simp add: sender_main_v1_def numeral_3_eq_3)
qed

end
